theory Spec2Isabelle
  imports Main
begin

section \<open>JavaScript text\<close>

text \<open>
  A JavaScript string is a sequence of UTF-16 code units; \<open>s.length\<close> counts them.
  Literals of the source are written with \<open>lit\<close>.
\<close>

type_synonym jsstring = "nat list"

definition lit :: "string \<Rightarrow> jsstring" where
  "lit s = map (of_char :: char \<Rightarrow> nat) s"

text \<open>
  \<open>String.prototype.trim\<close> removes leading and trailing WhiteSpace and LineTerminator
  code units: TAB, LF, VT, FF, CR, SPACE, NBSP, U+1680, U+2000 .. U+200A, U+2028, U+2029,
  U+202F, U+205F, U+3000 and U+FEFF.
\<close>

definition isWhiteSpace :: "nat \<Rightarrow> bool" where
  "isWhiteSpace c =
     (c \<in> set [9, 10, 11, 12, 13, 32, 160, 5760, 8232, 8233, 8239, 8287, 12288, 65279]
      \<or> (8192 \<le> c \<and> c \<le> 8202))"

definition trim :: "jsstring \<Rightarrow> jsstring" where
  "trim s = rev (dropWhile isWhiteSpace (rev (dropWhile isWhiteSpace s)))"

text \<open>\<open>a || b\<close> on strings: the empty string is falsy.\<close>

definition or_str :: "jsstring \<Rightarrow> jsstring \<Rightarrow> jsstring" where
  "or_str a b = (if a \<noteq> [] then a else b)"

section \<open>Messages on the extension's bus\<close>

datatype message =
    PROMPT_CHATGPT jsstring
  | INJECT_PROSEMIRROR_SCRIPT jsstring
  | CAPTURED_RESPONSE jsstring

section \<open>The page as the content script reads it\<close>

text \<open>
  An element of the page: \<open>innerText\<close> is undefined on an element that is not an
  HTMLElement, \<open>textContent\<close> of an element is always a string.
\<close>

record element =
  innerText :: "jsstring option"
  textContent :: jsstring

record button =
  disabled :: bool

text \<open>\<open>el.innerText || el.textContent || ''\<close>\<close>

definition innerText_or_textContent :: "element \<Rightarrow> jsstring" where
  "innerText_or_textContent el =
     or_str (case innerText el of None \<Rightarrow> [] | Some t \<Rightarrow> t) (or_str (textContent el) [])"

text \<open>\<open>el.textContent || el.innerText || ''\<close>\<close>

definition textContent_or_innerText :: "element \<Rightarrow> jsstring" where
  "textContent_or_innerText el =
     or_str (textContent el) (or_str (case innerText el of None \<Rightarrow> [] | Some t \<Rightarrow> t) [])"

section \<open>Completion detector (background.js, waitForResponse)\<close>

text \<open>
  What the \<open>document.querySelector\<close> calls of one run of \<open>checkCompletion\<close> return:
  the four selectors tried for the send button, the two for the stop button, the streaming
  indicator, and the two selector lists for response blocks.
\<close>

record observation =
  sendByTestId :: "button option"
  sendByAriaLabel :: "button option"
  sendByTitle :: "button option"
  sendBySubmit :: "button option"
  stopByLabel :: bool
  stopByGenerating :: bool
  isStreaming :: bool
  markdownBlocks :: "element list"
  messageBlocks :: "element list"

definition or_else :: "'a option \<Rightarrow> 'a option \<Rightarrow> 'a option" where
  "or_else a b = (case a of Some x \<Rightarrow> Some x | None \<Rightarrow> b)"

definition sendButton :: "observation \<Rightarrow> button option" where
  "sendButton ob =
     (case sendByTestId ob of
        Some b \<Rightarrow> Some b
      | None \<Rightarrow> or_else (sendByAriaLabel ob) (or_else (sendByTitle ob) (sendBySubmit ob)))"

definition stopButton :: "observation \<Rightarrow> bool" where
  "stopButton ob = (stopByLabel ob \<or> stopByGenerating ob)"

definition responses :: "observation \<Rightarrow> element list" where
  "responses ob = (if length (markdownBlocks ob) = 0 then messageBlocks ob else markdownBlocks ob)"

definition lastResponse :: "observation \<Rightarrow> element option" where
  "lastResponse ob =
     (if length (responses ob) > 0 then Some (last (responses ob)) else None)"

definition currentResponseLength :: "observation \<Rightarrow> nat" where
  "currentResponseLength ob =
     (case lastResponse ob of
        None \<Rightarrow> 0
      | Some el \<Rightarrow> (case innerText el of None \<Rightarrow> 0 | Some t \<Rightarrow> length t))"

text \<open>The variables closed over by \<open>checkCompletion\<close>, and the messages it has sent.\<close>

record detector =
  checkCount :: nat
  streamingDetected :: bool
  lastResponseLength :: nat
  stableCount :: nat
  observer :: bool
  intervalId :: bool
  isComplete :: bool
  sent :: "message list"

definition maxChecks :: nat where
  "maxChecks = 300"

definition requiredStableChecks :: nat where
  "requiredStableChecks = 3"

definition timeoutText :: jsstring where
  "timeoutText = lit ''Response timeout - please check manually''"

definition cleanup :: "detector \<Rightarrow> detector" where
  "cleanup d = d\<lparr>observer := False, intervalId := False\<rparr>"

text \<open>
  The conjunction computed in \<open>checkCompletion\<close>, with \<open>streamingDetected\<close> as it is
  after this tick's update.
\<close>

definition completionConditionsMet :: "bool \<Rightarrow> observation \<Rightarrow> bool" where
  "completionConditionsMet sd ob =
     (sd \<and> \<not> stopButton ob \<and> \<not> isStreaming ob \<and> lastResponse ob \<noteq> None
      \<and> currentResponseLength ob > 0
      \<and> (case sendButton ob of None \<Rightarrow> True | Some b \<Rightarrow> \<not> disabled b))"

definition checkCompletion :: "observation \<Rightarrow> detector \<Rightarrow> detector" where
  "checkCompletion ob d =
     (if isComplete d then d
      else
        let d1 = d\<lparr>checkCount := checkCount d + 1\<rparr> in
        if checkCount d1 > maxChecks then
          (cleanup d1)\<lparr>sent := sent d1 @ [CAPTURED_RESPONSE timeoutText]\<rparr>
        else
          let d2 = (if stopButton ob \<and> \<not> streamingDetected d1
                    then d1\<lparr>streamingDetected := True\<rparr> else d1);
              cur = currentResponseLength ob
          in
          if completionConditionsMet (streamingDetected d2) ob then
            (if cur = lastResponseLength d2 then
               let d3 = d2\<lparr>stableCount := stableCount d2 + 1\<rparr> in
               if stableCount d3 \<ge> requiredStableChecks then
                 (cleanup (d3\<lparr>isComplete := True\<rparr>))
                   \<lparr>sent := sent d3 @
                      [CAPTURED_RESPONSE
                         (case lastResponse ob of
                            None \<Rightarrow> []
                          | Some el \<Rightarrow> innerText_or_textContent el)]\<rparr>
               else d3
             else d2\<lparr>stableCount := 0, lastResponseLength := cur\<rparr>)
          else
            (if cur > 0 then d2\<lparr>stableCount := 0, lastResponseLength := cur\<rparr>
             else d2\<lparr>stableCount := 0\<rparr>))"

text \<open>
  The two sources of ticks. A disconnected observer and a cleared interval deliver no
  callback; the interval's callback runs \<open>cleanup\<close> once more when the detector is complete.
\<close>

datatype trigger = Mutation | Interval

fun fire :: "trigger \<times> observation \<Rightarrow> detector \<Rightarrow> detector" where
  "fire (Mutation, ob) d = (if observer d then checkCompletion ob d else d)"
| "fire (Interval, ob) d =
     (if intervalId d then
        (let d' = checkCompletion ob d in if isComplete d' then cleanup d' else d')
      else d)"

definition initialDetector :: detector where
  "initialDetector =
     \<lparr>checkCount = 0, streamingDetected = False, lastResponseLength = 0, stableCount = 0,
      observer = True, intervalId = True, isComplete = False, sent = []\<rparr>"

text \<open>
  \<open>waitForResponse\<close>: both handles are installed, \<open>checkCompletion\<close> runs at once (tick 1,
  on the observation \<open>ob\<close>), and every later tick is a callback of one of the two sources.
\<close>

definition waitForResponse :: "observation \<Rightarrow> (trigger \<times> observation) list \<Rightarrow> detector" where
  "waitForResponse ob evs = fold fire evs (checkCompletion ob initialDetector)"

subsection \<open>Runs of the detector\<close>

text \<open>
  On no tick of the run from \<open>d\<close> over the observations is the completion candidate
  recognised.
\<close>

fun never_candidate :: "detector \<Rightarrow> observation list \<Rightarrow> bool" where
  "never_candidate d [] = True"
| "never_candidate d (ob # obs) =
     (\<not> completionConditionsMet (streamingDetected d \<or> stopButton ob) ob
      \<and> never_candidate (checkCompletion ob d) obs)"

text \<open>The detector is not complete and has sent nothing but the timeout text.\<close>

definition onlyTimeout :: "detector \<Rightarrow> bool" where
  "onlyTimeout d = (\<not> isComplete d \<and> list_all (\<lambda>m. m = CAPTURED_RESPONSE timeoutText) (sent d))"

text \<open>A detector that holds both handles, is not complete and has sent nothing.\<close>

definition running :: "nat \<Rightarrow> bool \<Rightarrow> nat \<Rightarrow> nat \<Rightarrow> detector" where
  "running n sd sc l =
     \<lparr>checkCount = n, streamingDetected = sd, lastResponseLength = l, stableCount = sc,
      observer = True, intervalId = True, isComplete = False, sent = []\<rparr>"

text \<open>No streaming indicator, and the send button, if one is found, is enabled.\<close>

definition settled :: "observation \<Rightarrow> bool" where
  "settled ob = (\<not> isStreaming ob \<and> (case sendButton ob of None \<Rightarrow> True | Some b \<Rightarrow> \<not> disabled b))"

subsection \<open>Example pages\<close>

text \<open>
  A page with no response block and no control; the same page while the stop button is
  shown; and a page whose latest response block reads \<open>Hello world!\<close> (12 code units).
\<close>

definition blankPage :: observation where
  "blankPage = \<lparr>sendByTestId = None, sendByAriaLabel = None, sendByTitle = None,
     sendBySubmit = None, stopByLabel = False, stopByGenerating = False, isStreaming = False,
     markdownBlocks = [], messageBlocks = []\<rparr>"

definition generatingPage :: observation where
  "generatingPage = blankPage\<lparr>stopByLabel := True\<rparr>"

definition answeredPage :: observation where
  "answeredPage = blankPage\<lparr>markdownBlocks :=
     [\<lparr>innerText = Some (lit ''Hello world!''), textContent = lit ''Hello world!''\<rparr>]\<rparr>"

section \<open>API facade (chatgpt-api.js)\<close>

text \<open>
  The values a caller may pass as \<open>prompt\<close>. Of a number only its truthiness matters
  here, so numbers are integers and \<open>NaN\<close>.
\<close>

datatype jsvalue =
    JSUndefined
  | JSNull
  | JSBoolean bool
  | JSNumber int
  | JSNaN
  | JSString jsstring
  | JSObject

fun truthy :: "jsvalue \<Rightarrow> bool" where
  "truthy JSUndefined = False"
| "truthy JSNull = False"
| "truthy (JSBoolean b) = b"
| "truthy (JSNumber n) = (n \<noteq> 0)"
| "truthy JSNaN = False"
| "truthy (JSString t) = (t \<noteq> [])"
| "truthy JSObject = True"

fun typeof :: "jsvalue \<Rightarrow> string" where
  "typeof JSUndefined = ''undefined''"
| "typeof JSNull = ''object''"
| "typeof (JSBoolean b) = ''boolean''"
| "typeof (JSNumber n) = ''number''"
| "typeof JSNaN = ''number''"
| "typeof (JSString t) = ''string''"
| "typeof JSObject = ''object''"

text \<open>
  The \<open>Error\<close> objects the facade creates, one constructor for each message:
  \<^item> \<open>NotInitialized\<close>: ``API not initialized. Call initialize() first.''
  \<^item> \<open>InvalidInput\<close>: ``Prompt must be a non-empty string''
  \<^item> \<open>TargetNotFound\<close>: ``ChatGPT tab not found. Please open ChatGPT in a browser tab.''
  \<^item> \<open>SendFailed m\<close>: ``Failed to send prompt: m. Please refresh the ChatGPT page.''
  \<^item> \<open>RequestTimeout n\<close>: ``Request timeout after n seconds''
  \<^item> \<open>Thrown m\<close>: an exception raised inside the \<open>try\<close> block by
    \<open>onProgress\<close> or \<open>chrome.tabs.sendMessage\<close>.
\<close>

datatype api_error =
    NotInitialized
  | InvalidInput
  | TargetNotFound
  | SendFailed jsstring
  | RequestTimeout nat
  | Thrown jsstring

datatype settlement = Resolved jsstring | Rejected api_error

record options =
  timeout :: "nat option"

text \<open>
  The variables closed over by the promise body of one \<open>sendPrompt\<close> call, with the
  calls of \<open>resolve\<close>/\<open>reject\<close> and of \<open>onProgress\<close> made so far.
\<close>

record request =
  prompt :: jsstring
  timeoutSeconds :: nat
  timeoutId :: bool
  resolved :: bool
  settlements :: "settlement list"
  progress :: "jsstring list"

record tab =
  tabId :: nat
  url :: "jsstring option"

text \<open>
  A \<open>ChatGPTAPI\<close> instance. \<open>responseListeners\<close> is the \<open>Set\<close> of response handlers
  in insertion order, each named by the number of its request; \<open>busListeners\<close> counts
  the listeners this instance has added to \<open>chrome.runtime.onMessage\<close>;
  \<open>tabMessages\<close> are its \<open>chrome.tabs.sendMessage\<close> calls.
\<close>

record api =
  isInitialized :: bool
  messageListener :: bool
  busListeners :: nat
  responseListeners :: "nat list"
  requests :: "nat \<Rightarrow> request option"
  nextRequest :: nat
  tabMessages :: "(nat \<times> message) list"

definition newApi :: api where
  "newApi =
     \<lparr>isInitialized = False, messageListener = False, busListeners = 0,
      responseListeners = [], requests = (\<lambda>i. None), nextRequest = 0, tabMessages = []\<rparr>"

definition initialize :: "api \<Rightarrow> api" where
  "initialize s =
     (if isInitialized s then s
      else
        let s1 = (if \<not> messageListener s
                  then s\<lparr>messageListener := True, busListeners := busListeners s + 1\<rparr>
                  else s)
        in s1\<lparr>isInitialized := True\<rparr>)"

definition promptRejected :: "jsvalue \<Rightarrow> bool" where
  "promptRejected p =
     (\<not> truthy p \<or> typeof p \<noteq> ''string''
      \<or> (case p of JSString t \<Rightarrow> length (trim t) = 0 | _ \<Rightarrow> True))"

definition timeoutOf :: "options \<Rightarrow> nat" where
  "timeoutOf opts = (case timeout opts of None \<Rightarrow> 300 | Some n \<Rightarrow> if n = 0 then 300 else n)"

text \<open>
  \<open>sendPrompt\<close> up to its first \<open>await\<close>: the two guards throw; otherwise the response
  handler is added to the set and the timer is armed. The result names the new request.
\<close>

definition sendPrompt :: "jsvalue \<Rightarrow> options \<Rightarrow> api \<Rightarrow> api_error + (nat \<times> api)" where
  "sendPrompt p opts s =
     (if \<not> isInitialized s then Inl NotInitialized
      else if promptRejected p then Inl InvalidInput
      else
        let i = nextRequest s;
            r = \<lparr>prompt = (case p of JSString t \<Rightarrow> t | _ \<Rightarrow> []),
                 timeoutSeconds = timeoutOf opts, timeoutId = True, resolved = False,
                 settlements = [], progress = []\<rparr>
        in Inr (i, s\<lparr>nextRequest := Suc i,
                      responseListeners := responseListeners s @ [i],
                      requests := (requests s)(i \<mapsto> r)\<rparr>))"

text \<open>
  The four places that set \<open>resolved\<close>: each returns at once when the flag is set,
  otherwise sets it, clears the timer, deletes the handler from the set, and all but the
  tab lookup call \<open>resolve\<close> or \<open>reject\<close>.
\<close>

definition finish :: "nat \<Rightarrow> request \<Rightarrow> settlement list \<Rightarrow> api \<Rightarrow> api" where
  "finish i r calls s =
     s\<lparr>requests := (requests s)(i \<mapsto>
          r\<lparr>resolved := True, timeoutId := False, settlements := settlements r @ calls\<rparr>),
       responseListeners := removeAll i (responseListeners s)\<rparr>"

definition responseHandler :: "nat \<Rightarrow> jsstring \<Rightarrow> api \<Rightarrow> api" where
  "responseHandler i responseText s =
     (case requests s i of
        None \<Rightarrow> s
      | Some r \<Rightarrow> if resolved r then s else finish i r [Resolved responseText] s)"

text \<open>The timer's callback; a cleared timer has none.\<close>

definition timeoutFires :: "nat \<Rightarrow> api \<Rightarrow> api" where
  "timeoutFires i s =
     (case requests s i of
        None \<Rightarrow> s
      | Some r \<Rightarrow>
          if \<not> timeoutId r then s
          else if resolved r then s\<lparr>requests := (requests s)(i \<mapsto> r\<lparr>timeoutId := False\<rparr>)\<rparr>
          else finish i r [Rejected (RequestTimeout (timeoutSeconds r))] s)"

fun isPrefix :: "'a list \<Rightarrow> 'a list \<Rightarrow> bool" where
  "isPrefix [] ys = True"
| "isPrefix (x # xs) [] = False"
| "isPrefix (x # xs) (y # ys) = (x = y \<and> isPrefix xs ys)"

text \<open>\<open>s.includes(sub)\<close>\<close>

fun js_includes :: "'a list \<Rightarrow> 'a list \<Rightarrow> bool" where
  "js_includes [] sub = (sub = [])"
| "js_includes (c # cs) sub = (isPrefix sub (c # cs) \<or> js_includes cs sub)"

definition isChatGPTTab :: "tab \<Rightarrow> bool" where
  "isChatGPTTab t =
     (case url t of
        None \<Rightarrow> False
      | Some u \<Rightarrow> u \<noteq> [] \<and> (js_includes u (lit ''chatgpt.com'')
                              \<or> js_includes u (lit ''chat.openai.com'')))"

text \<open>\<open>_getChatGPTTab\<close>; the argument is \<open>None\<close> when \<open>chrome.tabs.query\<close> rejects.\<close>

definition getChatGPTTab :: "tab list option \<Rightarrow> tab option" where
  "getChatGPTTab q = (case q of None \<Rightarrow> None | Some tabs \<Rightarrow> find isChatGPTTab tabs)"

definition isAvailable :: "tab list option \<Rightarrow> bool" where
  "isAvailable q = (getChatGPTTab q \<noteq> None)"

text \<open>
  The \<open>try\<close> block after the tab lookup returns. The result is the exception thrown, if
  any, and the state at that point. \<open>sendThrows\<close> is the exception of
  \<open>chrome.tabs.sendMessage\<close>, if it raises one.
\<close>

definition tryBlock :: "nat \<Rightarrow> request \<Rightarrow> tab list option \<Rightarrow> jsstring option \<Rightarrow> api
    \<Rightarrow> api_error option \<times> api" where
  "tryBlock i r q sendThrows s =
     (case getChatGPTTab q of
        None \<Rightarrow>
          if resolved r then (None, s)
          else (Some TargetNotFound, finish i r [] s)
      | Some t \<Rightarrow>
          let s1 = s\<lparr>requests := (requests s)(i \<mapsto>
                      r\<lparr>progress := progress r @ [lit ''Sending prompt...'']\<rparr>)\<rparr>
          in (case sendThrows of
                Some m \<Rightarrow> (Some (Thrown m), s1)
              | None \<Rightarrow>
                  (None, s1\<lparr>tabMessages := tabMessages s1 @
                                [(tabId t, PROMPT_CHATGPT (trim (prompt r)))]\<rparr>)))"

definition catchBlock :: "nat \<Rightarrow> api_error \<Rightarrow> api \<Rightarrow> api" where
  "catchBlock i e s =
     (case requests s i of
        None \<Rightarrow> s
      | Some r \<Rightarrow> if resolved r then s else finish i r [Rejected e] s)"

definition afterTabLookup :: "nat \<Rightarrow> tab list option \<Rightarrow> jsstring option \<Rightarrow> api \<Rightarrow> api" where
  "afterTabLookup i q sendThrows s =
     (case requests s i of
        None \<Rightarrow> s
      | Some r \<Rightarrow>
          (case tryBlock i r q sendThrows s of
             (None, s') \<Rightarrow> s'
           | (Some e, s') \<Rightarrow> catchBlock i e s'))"

text \<open>The callback of \<open>chrome.tabs.sendMessage\<close>, with \<open>chrome.runtime.lastError\<close>.\<close>

definition sendCallback :: "nat \<Rightarrow> jsstring option \<Rightarrow> api \<Rightarrow> api" where
  "sendCallback i lastError s =
     (case requests s i of
        None \<Rightarrow> s
      | Some r \<Rightarrow>
          (case lastError of
             Some m \<Rightarrow> if resolved r then s else finish i r [Rejected (SendFailed m)] s
           | None \<Rightarrow>
               s\<lparr>requests := (requests s)(i \<mapsto>
                    r\<lparr>progress := progress r @ [lit ''Waiting for response...'']\<rparr>)\<rparr>))"

text \<open>
  \<open>Set.prototype.forEach\<close> over the handlers: every handler that is in the set when the
  iteration starts is called, unless it has been deleted before its turn.
\<close>

fun forEach :: "nat list \<Rightarrow> jsstring \<Rightarrow> api \<Rightarrow> api" where
  "forEach [] responseText s = s"
| "forEach (i # is) responseText s =
     (if i \<in> set (responseListeners s)
      then forEach is responseText (responseHandler i responseText s)
      else forEach is responseText s)"

definition handleResponse :: "jsstring \<Rightarrow> api \<Rightarrow> api" where
  "handleResponse responseText s = forEach (responseListeners s) responseText s"

definition messageListenerCall :: "message \<Rightarrow> api \<Rightarrow> api" where
  "messageListenerCall m s =
     (case m of CAPTURED_RESPONSE t \<Rightarrow> handleResponse t s | _ \<Rightarrow> s)"

text \<open>A message on the bus runs every listener the instance has registered.\<close>

definition deliver :: "message \<Rightarrow> api \<Rightarrow> api" where
  "deliver m s = (messageListenerCall m ^^ busListeners s) s"

text \<open>What can happen to an instance, in any order.\<close>

datatype event =
    Initialize
  | SendPrompt jsvalue options
  | TimeoutFires nat
  | TabLookupDone nat "tab list option" "jsstring option"
  | SendCallback nat "jsstring option"
  | BusMessage message

fun step :: "event \<Rightarrow> api \<Rightarrow> api" where
  "step Initialize s = initialize s"
| "step (SendPrompt p opts) s = (case sendPrompt p opts s of Inl e \<Rightarrow> s | Inr (i, s') \<Rightarrow> s')"
| "step (TimeoutFires i) s = timeoutFires i s"
| "step (TabLookupDone i q sendThrows) s = afterTabLookup i q sendThrows s"
| "step (SendCallback i lastError) s = sendCallback i lastError s"
| "step (BusMessage m) s = deliver m s"

definition settlementsOf :: "nat \<Rightarrow> api \<Rightarrow> settlement list" where
  "settlementsOf i s = (case requests s i of None \<Rightarrow> [] | Some r \<Rightarrow> settlements r)"

section \<open>Privileged broker (background.js, INJECT_PROSEMIRROR_SCRIPT)\<close>

text \<open>
  The objects written to \<open>window.__prosemirrorResult\<close> and passed to \<open>sendResponse\<close>;
  a field that is absent is \<open>None\<close>.
\<close>

record injection_result =
  success :: "bool option"
  method' :: "jsstring option"
  error :: "jsstring option"

definition failure :: "jsstring \<Rightarrow> injection_result" where
  "failure m = \<lparr>success = Some False, method' = None, error = Some m\<rparr>"

definition domSuccess :: injection_result where
  "domSuccess = \<lparr>success = Some True, method' = Some (lit ''dom_manipulation''), error = None\<rparr>"

text \<open>The target page: the result marker in its global scope and its input element.\<close>

record page =
  marker :: "injection_result option"
  textarea :: "element option"

text \<open>
  The three functions the handler injects after the injection routine: the read of the
  marker (\<open>window.__prosemirrorResult || null\<close>), the check of the input element, and the
  deletion of the marker.
\<close>

record content_check =
  hasContent :: "bool option"

definition readMarker :: "page \<Rightarrow> injection_result option" where
  "readMarker p = marker p"

definition checkTextarea :: "page \<Rightarrow> content_check" where
  "checkTextarea p =
     (case textarea p of
        Some el \<Rightarrow> \<lparr>hasContent = Some (length (trim (textContent_or_innerText el)) > 0)\<rparr>
      | None \<Rightarrow> \<lparr>hasContent = Some False\<rparr>)"

definition deleteMarker :: "page \<Rightarrow> page" where
  "deleteMarker p = (if marker p \<noteq> None then p\<lparr>marker := None\<rparr> else p)"

text \<open>
  A \<open>chrome.scripting.executeScript\<close> promise either rejects with a message or fulfils
  with an array. What the promises of one injection request do is an input of the handler:
  \<open>injectRun\<close> for the injection routine (only its rejection is looked at), \<open>readRun\<close>
  for the read of the marker, \<open>checkRun\<close> for the check of the input element. An array
  element is \<open>null\<close> or an object, of which the handler reads the fields modelled here.
  The outcome of the deletion is ignored by the handler.
\<close>

datatype 'a script = Returned "'a list" | Failed jsstring

record script_runs =
  injectRun :: "jsstring option"
  readRun :: "injection_result option script"
  checkRun :: "content_check option script"

datatype page_script = InjectProseMirrorCode jsstring | ReadMarker | CheckTextarea | DeleteMarker

text \<open>\<open>results && results[0] ? results[0] : null\<close>\<close>

fun first :: "'a option list \<Rightarrow> 'a option" where
  "first [] = None"
| "first (r # rs) = r"

text \<open>
  The check of the input element and what is answered after it; \<open>fallback\<close> is the
  response when the check shows no content or fails.
\<close>

definition secondaryProbe :: "script_runs \<Rightarrow> injection_result \<Rightarrow> injection_result" where
  "secondaryProbe runs fallback =
     (case checkRun runs of
        Failed m \<Rightarrow> fallback
      | Returned checkResults \<Rightarrow>
          (case first checkResults of
             None \<Rightarrow> fallback
           | Some check \<Rightarrow> if hasContent check = Some True then domSuccess else fallback))"

text \<open>
  The handler of an injection request: the argument of \<open>sendResponse\<close> and the functions
  it has executed in the page, in order.
\<close>

definition onInjectMessage :: "script_runs \<Rightarrow> jsstring \<Rightarrow> injection_result \<times> page_script list" where
  "onInjectMessage runs promptText =
     (case injectRun runs of
        Some m \<Rightarrow> (failure m, [InjectProseMirrorCode promptText])
      | None \<Rightarrow>
          (case readRun runs of
             Failed m \<Rightarrow>
               (secondaryProbe runs (failure m),
                [InjectProseMirrorCode promptText, ReadMarker, CheckTextarea])
           | Returned results \<Rightarrow>
               (case first results of
                  None \<Rightarrow>
                    (secondaryProbe runs (failure (lit ''No result found'')),
                     [InjectProseMirrorCode promptText, ReadMarker, CheckTextarea])
                | Some result \<Rightarrow>
                    if success result \<noteq> Some True
                    then (secondaryProbe runs result,
                          [InjectProseMirrorCode promptText, ReadMarker, CheckTextarea])
                    else (result,
                          [InjectProseMirrorCode promptText, ReadMarker, DeleteMarker]))))"

section \<open>Content orchestrator (background.js, PROMPT_CHATGPT)\<close>

text \<open>
  What \<open>chrome.runtime.sendMessage\<close> does with the injection request: it raises an
  exception, or its callback runs with \<open>chrome.runtime.lastError\<close> set or with the
  broker's response (possibly undefined).
\<close>

datatype broker_reply = LastError jsstring | Response "injection_result option"

datatype send_outcome = Replied broker_reply | SendThrew jsstring

text \<open>
  What the orchestrator finds: whether the input element exists, the outcome of the
  injection request, the input element as it is at the re-check, and whether the send
  button is found at submission.
\<close>

record orchestrator_env =
  textareaFound :: bool
  injection :: send_outcome
  textareaAfter :: element
  sendButtonFound :: bool

datatype effect =
    ConsoleError jsstring
  | Focus
  | RuntimeSendMessage message
  | Click
  | KeydownEnter
  | StartWaitForResponse

definition setProseMirrorContent :: "jsstring \<Rightarrow> orchestrator_env \<Rightarrow> bool \<times> effect list" where
  "setProseMirrorContent promptText env =
     (case injection env of
        SendThrew m \<Rightarrow> (False, [ConsoleError (lit ''ChatGPT Automator: Error setting content:'')])
      | Replied reply \<Rightarrow>
          let result = (case reply of
                          LastError m \<Rightarrow> failure m
                        | Response None \<Rightarrow> failure (lit ''No response'')
                        | Response (Some r) \<Rightarrow> r);
              contentCheck = textContent_or_innerText (textareaAfter env)
          in (if length (trim contentCheck) > 0 then True else False,
              [RuntimeSendMessage (INJECT_PROSEMIRROR_SCRIPT promptText)]))"

definition handlePrompt :: "jsstring \<Rightarrow> orchestrator_env \<Rightarrow> effect list" where
  "handlePrompt promptText env =
     (if \<not> textareaFound env
      then [ConsoleError (lit ''ChatGPT Automator: Could not find textarea.'')]
      else
        (case setProseMirrorContent promptText env of
           (ok, effects) \<Rightarrow>
             Focus # effects @
             (if \<not> ok then [ConsoleError (lit ''ChatGPT Automator: Failed to set prompt text.'')]
              else if sendButtonFound env then [Click, StartWaitForResponse]
              else [KeydownEnter, StartWaitForResponse])))"



text \<open>Whether the effects contain a submission: a click on the send button or the Enter key.\<close>

definition submits :: "effect list \<Rightarrow> bool" where
  "submits es = (Click \<in> set es \<or> KeydownEnter \<in> set es)"

text \<open>The input element's text as \<open>setProseMirrorContent\<close> re-reads it, trimmed.\<close>

definition visibleText :: "orchestrator_env \<Rightarrow> jsstring" where
  "visibleText env = trim (textContent_or_innerText (textareaAfter env))"

section \<open>Invariants of the facade's requests\<close>

text \<open>
  A request has at most one settlement, none while its flag is unset, and once the flag
  is set its timer is no longer armed.
\<close>

definition requestOk :: "request \<Rightarrow> bool" where
  "requestOk r =
     (length (settlements r) \<le> 1 \<and> (\<not> resolved r \<longrightarrow> settlements r = [])
      \<and> (resolved r \<longrightarrow> \<not> timeoutId r))"

text \<open>
  How a request may change: a set flag stays set and freezes the settlements, a disarmed
  timer stays disarmed, and an unset flag allows at most one more settlement, which sets it.
\<close>

definition evolves :: "request \<Rightarrow> request \<Rightarrow> bool" where
  "evolves r r' =
     ((resolved r \<longrightarrow> resolved r' \<and> settlements r' = settlements r)
      \<and> (\<not> timeoutId r \<longrightarrow> \<not> timeoutId r')
      \<and> (\<not> resolved r \<longrightarrow>
            settlements r' = settlements r
            \<or> (\<exists>c. settlements r' = settlements r @ [c] \<and> resolved r'))
      \<and> (resolved r' \<and> \<not> resolved r \<longrightarrow> \<not> timeoutId r'))"

text \<open>
  A change of the instance that creates no request: every request evolves, and a handler
  still in the set belongs to a request whose flag the change has not set.
\<close>

definition localStep :: "api \<Rightarrow> api \<Rightarrow> bool" where
  "localStep s s' =
     (nextRequest s' = nextRequest s
      \<and> (\<forall>k. rel_option evolves (requests s k) (requests s' k))
      \<and> (\<forall>k\<in>set (responseListeners s').
            k \<in> set (responseListeners s)
            \<and> (\<forall>r r'. requests s k = Some r \<and> requests s' k = Some r' \<and> resolved r'
                  \<longrightarrow> resolved r)))"

definition wellFormed :: "api \<Rightarrow> bool" where
  "wellFormed s =
     (\<forall>k. case requests s k of
            None \<Rightarrow> True
          | Some r \<Rightarrow> k < nextRequest s \<and> requestOk r
                     \<and> (resolved r \<longrightarrow> k \<notin> set (responseListeners s)))"

text \<open>The flag of request \<open>i\<close> is set, its timer disarmed, and it has no settlement.\<close>

definition stalledAt :: "nat \<Rightarrow> api \<Rightarrow> bool" where
  "stalledAt i s =
     (case requests s i of
        None \<Rightarrow> False
      | Some r \<Rightarrow> resolved r \<and> settlements r = [] \<and> \<not> timeoutId r)"

section \<open>Example inputs\<close>

definition defaults :: options where
  "defaults = \<lparr>timeout = None\<rparr>"

definition otherTab :: tab where
  "otherTab = \<lparr>tabId = 1, url = Some (lit ''https://example.com/'')\<rparr>"


text \<open>
  An initialised instance after \<open>sendPrompt("hello")\<close> whose tab lookup has returned with
  no ChatGPT tab open.
\<close>

definition stalled :: api where
  "stalled =
     fold step
       [Initialize, SendPrompt (JSString (lit ''hello'')) defaults,
        TabLookupDone 0 (Some [otherTab]) None]
       newApi"

text \<open>An initialised instance with two \<open>sendPrompt\<close> calls under way.\<close>

definition twoPending :: api where
  "twoPending =
     fold step
       [Initialize, SendPrompt (JSString (lit ''first'')) defaults,
        SendPrompt (JSString (lit ''second'')) defaults]
       newApi"


text \<open>Results of the injection routine, and the input element with and without text.\<close>

definition editorSuccess :: injection_result where
  "editorSuccess = \<lparr>success = Some True, method' = Some (lit ''direct_api''), error = None\<rparr>"

definition domFailure :: injection_result where
  "domFailure = \<lparr>success = None, method' = None, error = Some (lit ''DOM manipulation failed'')\<rparr>"

definition typedText :: element where
  "typedText = \<lparr>innerText = Some (lit ''hello''), textContent = lit ''hello''\<rparr>"

definition emptyText :: element where
  "emptyText = \<lparr>innerText = Some [], textContent = []\<rparr>"

text \<open>
  Script runs whose arrays hold, at index 0, the very value the function returns in the
  page \<open>p\<close>.
\<close>

definition runsOn :: "page \<Rightarrow> script_runs" where
  "runsOn p =
     \<lparr>injectRun = None, readRun = Returned [readMarker p],
      checkRun = Returned [Some (checkTextarea p)]\<rparr>"

text \<open>
  Script runs as \<open>chrome.scripting.executeScript\<close> delivers them: the promise fulfils
  with one object for each frame, \<open>{documentId, frameId, result}\<close>, and the value the function
  returned is the \<open>result\<close> field of that object. Of the object at index 0 the handler
  reads \<open>success\<close>, \<open>method\<close> and \<open>error\<close>, or \<open>hasContent\<close>; a frame object has none
  of them, whatever the page holds.
\<close>

definition frameResult :: injection_result where
  "frameResult = \<lparr>success = None, method' = None, error = None\<rparr>"

definition frameCheck :: content_check where
  "frameCheck = \<lparr>hasContent = None\<rparr>"

definition chromeRuns :: script_runs where
  "chromeRuns =
     \<lparr>injectRun = None, readRun = Returned [Some frameResult],
      checkRun = Returned [Some frameCheck]\<rparr>"


section \<open>Properties of the completion detector\<close>

lemma checkCompletion_complete: "isComplete d \<Longrightarrow> checkCompletion ob d = d"
  by (simp add: checkCompletion_def)

lemma tick_timeout:
  "\<not> isComplete d \<Longrightarrow> checkCount d \<ge> maxChecks \<Longrightarrow>
   checkCompletion ob d =
     d\<lparr>checkCount := Suc (checkCount d), observer := False, intervalId := False,
       sent := sent d @ [CAPTURED_RESPONSE timeoutText]\<rparr>"
  by (simp add: checkCompletion_def Let_def cleanup_def)

lemma tick_unmet:
  "\<not> isComplete d \<Longrightarrow> checkCount d < maxChecks \<Longrightarrow>
   \<not> completionConditionsMet (streamingDetected d \<or> stopButton ob) ob \<Longrightarrow>
   checkCompletion ob d =
     d\<lparr>checkCount := Suc (checkCount d),
       streamingDetected := streamingDetected d \<or> stopButton ob,
       stableCount := 0,
       lastResponseLength :=
         (if currentResponseLength ob > 0 then currentResponseLength ob
          else lastResponseLength d)\<rparr>"
  by (cases "streamingDetected d") (auto simp add: checkCompletion_def Let_def)

lemma tick_changed:
  "\<not> isComplete d \<Longrightarrow> checkCount d < maxChecks \<Longrightarrow>
   completionConditionsMet (streamingDetected d \<or> stopButton ob) ob \<Longrightarrow>
   currentResponseLength ob \<noteq> lastResponseLength d \<Longrightarrow>
   checkCompletion ob d =
     d\<lparr>checkCount := Suc (checkCount d),
       streamingDetected := streamingDetected d \<or> stopButton ob,
       stableCount := 0,
       lastResponseLength := currentResponseLength ob\<rparr>"
  by (cases "streamingDetected d") (auto simp add: checkCompletion_def Let_def)

lemma tick_stable:
  "\<not> isComplete d \<Longrightarrow> checkCount d < maxChecks \<Longrightarrow>
   completionConditionsMet (streamingDetected d \<or> stopButton ob) ob \<Longrightarrow>
   currentResponseLength ob = lastResponseLength d \<Longrightarrow>
   Suc (stableCount d) < requiredStableChecks \<Longrightarrow>
   checkCompletion ob d =
     d\<lparr>checkCount := Suc (checkCount d),
       streamingDetected := streamingDetected d \<or> stopButton ob,
       stableCount := Suc (stableCount d)\<rparr>"
  by (cases "streamingDetected d") (auto simp add: checkCompletion_def Let_def)

lemma tick_done:
  "\<not> isComplete d \<Longrightarrow> checkCount d < maxChecks \<Longrightarrow>
   completionConditionsMet (streamingDetected d \<or> stopButton ob) ob \<Longrightarrow>
   currentResponseLength ob = lastResponseLength d \<Longrightarrow>
   Suc (stableCount d) \<ge> requiredStableChecks \<Longrightarrow>
   checkCompletion ob d =
     d\<lparr>checkCount := Suc (checkCount d),
       streamingDetected := streamingDetected d \<or> stopButton ob,
       stableCount := Suc (stableCount d),
       isComplete := True, observer := False, intervalId := False,
       sent := sent d @ [CAPTURED_RESPONSE
                (case lastResponse ob of None \<Rightarrow> [] | Some el \<Rightarrow> innerText_or_textContent el)]\<rparr>"
  by (cases "streamingDetected d") (auto simp add: checkCompletion_def Let_def cleanup_def)

lemma tick_cases:
  assumes "\<not> isComplete d"
  obtains
    (timeout) "checkCount d \<ge> maxChecks"
  | (unmet) "checkCount d < maxChecks"
      and "\<not> completionConditionsMet (streamingDetected d \<or> stopButton ob) ob"
  | (changed) "checkCount d < maxChecks"
      and "completionConditionsMet (streamingDetected d \<or> stopButton ob) ob"
      and "currentResponseLength ob \<noteq> lastResponseLength d"
  | (stable) "checkCount d < maxChecks"
      and "completionConditionsMet (streamingDetected d \<or> stopButton ob) ob"
      and "currentResponseLength ob = lastResponseLength d"
      and "Suc (stableCount d) < requiredStableChecks"
  | (finished) "checkCount d < maxChecks"
      and "completionConditionsMet (streamingDetected d \<or> stopButton ob) ob"
      and "currentResponseLength ob = lastResponseLength d"
      and "Suc (stableCount d) \<ge> requiredStableChecks"
  by (meson not_le)

lemma complete_released:
  assumes "\<not> isComplete d" and "isComplete (checkCompletion ob d)"
  shows "cleanup (checkCompletion ob d) = checkCompletion ob d"
  using assms(1)
proof (cases rule: tick_cases [where d = d and ob = ob])
  case timeout
  with assms show ?thesis by (simp add: tick_timeout)
next
  case unmet
  with assms show ?thesis by (simp add: tick_unmet)
next
  case changed
  with assms show ?thesis by (simp add: tick_changed)
next
  case stable
  with assms show ?thesis by (simp add: tick_stable)
next
  case finished
  with assms show ?thesis by (simp add: tick_done cleanup_def)
qed

lemma fire_live:
  "observer d \<Longrightarrow> intervalId d \<Longrightarrow> \<not> isComplete d \<Longrightarrow>
   fire (t, ob) d = checkCompletion ob d"
  by (cases t) (simp_all add: Let_def complete_released)

lemma fire_released:
  assumes "\<not> observer d" and "\<not> intervalId d"
  shows "fire ev d = d"
proof -
  obtain t ob where "ev = (t, ob)" by (cases ev)
  with assms show ?thesis by (cases t) simp_all
qed

lemma fold_fire_released:
  "\<not> observer d \<Longrightarrow> \<not> intervalId d \<Longrightarrow> fold fire evs d = d"
  by (induction evs) (simp_all add: fire_released)

lemma quiet_ticks:
  assumes "\<not> isComplete d" and "checkCount d + length obs \<le> maxChecks"
    and "never_candidate d obs"
  shows "sent (fold checkCompletion obs d) = sent d
         \<and> observer (fold checkCompletion obs d) = observer d
         \<and> intervalId (fold checkCompletion obs d) = intervalId d
         \<and> \<not> isComplete (fold checkCompletion obs d)
         \<and> checkCount (fold checkCompletion obs d) = checkCount d + length obs"
  using assms
proof (induction obs arbitrary: d)
  case Nil
  then show ?case by simp
next
  case (Cons ob obs)
  let ?d = "checkCompletion ob d"
  from Cons.prems have lt: "checkCount d < maxChecks" by simp
  from Cons.prems have unmet: "\<not> completionConditionsMet (streamingDetected d \<or> stopButton ob) ob"
    by simp
  note step = tick_unmet [OF Cons.prems(1) lt unmet]
  have a: "\<not> isComplete ?d" using Cons.prems(1) by (simp add: step)
  have b: "checkCount ?d + length obs \<le> maxChecks" using Cons.prems(2) by (simp add: step)
  have c: "never_candidate ?d obs" using Cons.prems(3) by simp
  have d: "sent ?d = sent d" "observer ?d = observer d" "intervalId ?d = intervalId d"
    "checkCount ?d = Suc (checkCount d)"
    by (simp_all add: step)
  from Cons.IH [OF a b c] d show ?case by simp
qed

lemma never_candidate_take: "never_candidate d obs \<Longrightarrow> never_candidate d (take n obs)"
proof (induction obs arbitrary: d n)
  case Nil
  then show ?case by simp
next
  case (Cons ob obs)
  then show ?case by (cases n) simp_all
qed

lemma fold_fire_quiet:
  assumes "observer d" and "intervalId d" and "\<not> isComplete d"
    and "checkCount d + length evs \<le> maxChecks"
    and "never_candidate d (map snd evs)"
  shows "fold fire evs d = fold checkCompletion (map snd evs) d"
  using assms
proof (induction evs arbitrary: d)
  case Nil
  then show ?case by simp
next
  case (Cons ev evs)
  obtain t ob where ev: "ev = (t, ob)" by (cases ev)
  let ?d = "checkCompletion ob d"
  from Cons.prems have lt: "checkCount d < maxChecks" by simp
  from Cons.prems ev
  have unmet: "\<not> completionConditionsMet (streamingDetected d \<or> stopButton ob) ob"
    by simp
  note step = tick_unmet [OF Cons.prems(3) lt unmet]
  have f: "fire ev d = ?d"
    unfolding ev by (rule fire_live) (fact Cons.prems(1-3))+
  have "fold fire evs ?d = fold checkCompletion (map snd evs) ?d"
  proof (rule Cons.IH)
    show "observer ?d" using Cons.prems(1) by (simp add: step)
    show "intervalId ?d" using Cons.prems(2) by (simp add: step)
    show "\<not> isComplete ?d" using Cons.prems(3) by (simp add: step)
    show "checkCount ?d + length evs \<le> maxChecks" using Cons.prems(4) by (simp add: step)
    show "never_candidate ?d (map snd evs)" using Cons.prems(5) ev by simp
  qed
  with f ev show ?case by simp
qed

lemma initial_facts:
  "observer initialDetector" "intervalId initialDetector" "\<not> isComplete initialDetector"
  "checkCount initialDetector = 0" "sent initialDetector = []"
  "stableCount initialDetector = 0" "lastResponseLength initialDetector = 0"
  "\<not> streamingDetected initialDetector"
  by (simp_all add: initialDetector_def)

lemma waitForResponse_ticks:
  assumes "length evs < maxChecks"
    and "never_candidate initialDetector (ob # map snd evs)"
  shows "waitForResponse ob evs = fold checkCompletion (ob # map snd evs) initialDetector"
proof -
  let ?d = "checkCompletion ob initialDetector"
  have lt: "checkCount initialDetector < maxChecks"
    by (simp add: initial_facts maxChecks_def)
  from assms(2)
  have unmet: "\<not> completionConditionsMet (streamingDetected initialDetector \<or> stopButton ob) ob"
    by simp
  note step = tick_unmet [OF initial_facts(3) lt unmet]
  have "fold fire evs ?d = fold checkCompletion (map snd evs) ?d"
  proof (rule fold_fire_quiet)
    show "observer ?d" by (simp add: step initial_facts)
    show "intervalId ?d" by (simp add: step initial_facts)
    show "\<not> isComplete ?d" by (simp add: step initial_facts)
    show "checkCount ?d + length evs \<le> maxChecks" using assms(1) by (simp add: step initial_facts)
    show "never_candidate ?d (map snd evs)" using assms(2) by simp
  qed
  then show ?thesis by (simp add: waitForResponse_def)
qed

lemma waitForResponse_quiet:
  assumes "length evs < maxChecks"
    and "never_candidate initialDetector (ob # map snd evs)"
  shows "sent (waitForResponse ob evs) = []
         \<and> observer (waitForResponse ob evs)
         \<and> intervalId (waitForResponse ob evs)
         \<and> \<not> isComplete (waitForResponse ob evs)
         \<and> checkCount (waitForResponse ob evs) = Suc (length evs)"
proof -
  have "checkCount initialDetector + length (ob # map snd evs) \<le> maxChecks"
    using assms(1) by (simp add: initial_facts)
  from quiet_ticks [OF initial_facts(3) this assms(2)]
  show ?thesis
    by (simp only: waitForResponse_ticks [OF assms] initial_facts) simp
qed

lemma waitForResponse_snoc:
  "waitForResponse ob (evs @ [ev]) = fire ev (waitForResponse ob evs)"
  by (simp add: waitForResponse_def)

lemma waitForResponse_append:
  "waitForResponse ob (evs @ later) = fold fire later (waitForResponse ob evs)"
  by (simp add: waitForResponse_def)

text \<open>
  Claim C2, as the code has it. In a run in which the completion candidate is recognised
  on none of the first 300 ticks, ticks 1 to 300 send nothing and keep both handles; the
  detector times out at tick 301, the first call that finds \<open>checkCount > maxChecks\<close>:
  it sends the timeout text once as a captured response and releases the observer and the
  interval, so that no later callback runs. Tick 1 is the call made by \<open>waitForResponse\<close>
  itself, tick \<open>k + 1\<close> the \<open>k\<close>-th callback.
\<close>

theorem timeout_at_tick_301:
  assumes "length evs = 300"
    and "never_candidate initialDetector (ob # map snd (butlast evs))"
  shows "(\<forall>k<300. sent (waitForResponse ob (take k evs)) = []
                  \<and> observer (waitForResponse ob (take k evs))
                  \<and> intervalId (waitForResponse ob (take k evs)))
         \<and> sent (waitForResponse ob evs) = [CAPTURED_RESPONSE timeoutText]
         \<and> \<not> observer (waitForResponse ob evs)
         \<and> \<not> intervalId (waitForResponse ob evs)
         \<and> (\<forall>later. waitForResponse ob (evs @ later) = waitForResponse ob evs)"
proof -
  have early: "sent (waitForResponse ob (take k evs)) = []
                  \<and> observer (waitForResponse ob (take k evs))
                  \<and> intervalId (waitForResponse ob (take k evs))" if "k < 300" for k
  proof -
    have len: "length (take k evs) < maxChecks"
      using that assms(1) by (simp add: maxChecks_def)
    have "take k evs = take k (butlast evs)"
      using that assms(1) by (simp add: take_butlast)
    then have "ob # map snd (take k evs) = take (Suc k) (ob # map snd (butlast evs))"
      by (simp add: take_map)
    then have "never_candidate initialDetector (ob # map snd (take k evs))"
      using never_candidate_take [OF assms(2), of "Suc k"] by (simp only:)
    from waitForResponse_quiet [OF len this] show ?thesis by simp
  qed
  let ?d = "waitForResponse ob (butlast evs)"
  have ne: "evs \<noteq> []" using assms(1) by auto
  have len: "length (butlast evs) < maxChecks"
    using assms(1) by (simp add: maxChecks_def)
  note q = waitForResponse_quiet [OF len assms(2)]
  have full: "checkCount ?d \<ge> maxChecks"
    using q assms(1) by (simp add: maxChecks_def)
  obtain t ob' where l: "last evs = (t, ob')" by (cases "last evs")
  have "waitForResponse ob evs = fire (last evs) ?d"
    using waitForResponse_snoc [of ob "butlast evs" "last evs"] ne by simp
  also have "\<dots> = checkCompletion ob' ?d"
    unfolding l by (rule fire_live) (simp_all add: q)
  finally have w: "waitForResponse ob evs =
      ?d\<lparr>checkCount := Suc (checkCount ?d), observer := False, intervalId := False,
         sent := sent ?d @ [CAPTURED_RESPONSE timeoutText]\<rparr>"
    using q full by (simp add: tick_timeout)
  have s: "sent (waitForResponse ob evs) = [CAPTURED_RESPONSE timeoutText]"
    using q by (simp add: w)
  have r: "\<not> observer (waitForResponse ob evs)" "\<not> intervalId (waitForResponse ob evs)"
    by (simp_all add: w)
  have "waitForResponse ob (evs @ later) = waitForResponse ob evs" for later
    by (simp only: waitForResponse_append fold_fire_released [OF r])
  with early s r show ?thesis by blast
qed

lemma zero_length_unmet: "currentResponseLength ob = 0 \<Longrightarrow> \<not> completionConditionsMet sd ob"
  by (simp add: completionConditionsMet_def)

lemma zero_length_never_candidate:
  "\<forall>ob\<in>set obs. currentResponseLength ob = 0 \<Longrightarrow> never_candidate d obs"
  by (induction obs arbitrary: d) (simp_all add: zero_length_unmet)

lemma blankPage_length: "currentResponseLength blankPage = 0"
  by (simp add: currentResponseLength_def lastResponse_def responses_def blankPage_def)

lemma blank_run_never_candidate:
  "never_candidate initialDetector (blankPage # map snd (replicate n (t, blankPage)))"
  by (rule zero_length_never_candidate) (auto simp add: blankPage_length)

text \<open>
  The law at a page that never shows a response, polled by the interval 300 times.
\<close>

theorem timeout_witness:
  "sent (waitForResponse blankPage (take 299 (replicate 300 (Interval, blankPage)))) = []
   \<and> sent (waitForResponse blankPage (replicate 300 (Interval, blankPage)))
       = [CAPTURED_RESPONSE timeoutText]
   \<and> \<not> observer (waitForResponse blankPage (replicate 300 (Interval, blankPage)))
   \<and> \<not> intervalId (waitForResponse blankPage (replicate 300 (Interval, blankPage)))"
proof -
  have l: "length (replicate 300 (Interval, blankPage)) = 300" by simp
  have n: "never_candidate initialDetector
             (blankPage # map snd (butlast (replicate 300 (Interval, blankPage))))"
    using blank_run_never_candidate [of 299 Interval] by (simp add: butlast_conv_take)
  from timeout_at_tick_301 [OF l n] show ?thesis by simp
qed

text \<open>
  Claim C2 as stated fails: on that page, after tick 300 nothing has been sent and both
  handles are still held.
\<close>

theorem no_timeout_at_tick_300:
  "sent (waitForResponse blankPage (replicate 299 (Interval, blankPage))) = []
   \<and> observer (waitForResponse blankPage (replicate 299 (Interval, blankPage)))
   \<and> intervalId (waitForResponse blankPage (replicate 299 (Interval, blankPage)))
   \<and> checkCount (waitForResponse blankPage (replicate 299 (Interval, blankPage))) = 300"
proof -
  have l: "length (replicate 299 (Interval, blankPage)) < maxChecks"
    by (simp add: maxChecks_def)
  from waitForResponse_quiet [OF l blank_run_never_candidate] show ?thesis by simp
qed

lemma zero_tick_onlyTimeout:
  assumes "onlyTimeout d" and "currentResponseLength ob = 0"
  shows "onlyTimeout (checkCompletion ob d)"
proof -
  from assms(1) have nc: "\<not> isComplete d" by (simp add: onlyTimeout_def)
  show ?thesis
  proof (cases "checkCount d < maxChecks")
    case True
    from tick_unmet [OF nc True zero_length_unmet [OF assms(2)]] assms(1)
    show ?thesis by (simp add: onlyTimeout_def)
  next
    case False
    then have "checkCount d \<ge> maxChecks" by simp
    from tick_timeout [OF nc this] assms(1)
    show ?thesis by (simp add: onlyTimeout_def)
  qed
qed

lemma zero_fire_onlyTimeout:
  assumes "onlyTimeout d" and "currentResponseLength (snd ev) = 0"
  shows "onlyTimeout (fire ev d)"
proof -
  obtain t ob where ev: "ev = (t, ob)" by (cases ev)
  with assms(2) have z: "currentResponseLength ob = 0" by simp
  note k = zero_tick_onlyTimeout [OF assms(1) z]
  then have "\<not> isComplete (checkCompletion ob d)" by (simp add: onlyTimeout_def)
  with k assms(1) show ?thesis unfolding ev by (cases t) (simp_all add: Let_def)
qed

lemma zero_run_onlyTimeout:
  "onlyTimeout d \<Longrightarrow> \<forall>ev\<in>set evs. currentResponseLength (snd ev) = 0 \<Longrightarrow>
   onlyTimeout (fold fire evs d)"
  by (induction evs arbitrary: d) (simp_all add: zero_fire_onlyTimeout)

lemma zero_ticks_onlyTimeout:
  "onlyTimeout d \<Longrightarrow> \<forall>ob\<in>set obs. currentResponseLength ob = 0 \<Longrightarrow>
   onlyTimeout (fold checkCompletion obs d)"
  by (induction obs arbitrary: d) (simp_all add: zero_tick_onlyTimeout)

text \<open>
  Claim C8. When the latest response block has length 0 on every tick (or there is no
  response block), the detector is never complete, and whatever it has sent is the timeout
  text: no response text is ever captured. Nothing is assumed of the stop button, the
  streaming indicator or the send button.
\<close>

theorem empty_response_never_stable:
  assumes "currentResponseLength ob = 0"
    and "\<forall>ev\<in>set evs. currentResponseLength (snd ev) = 0"
  shows "\<not> isComplete (waitForResponse ob evs)
         \<and> set (sent (waitForResponse ob evs)) \<subseteq> {CAPTURED_RESPONSE timeoutText}"
proof -
  have "onlyTimeout initialDetector" by (simp add: onlyTimeout_def initial_facts)
  from zero_run_onlyTimeout [OF zero_tick_onlyTimeout [OF this assms(1)] assms(2)]
  show ?thesis by (auto simp add: waitForResponse_def onlyTimeout_def list_all_iff)
qed

text \<open>A page that never shows a response, observed 400 times.\<close>

theorem empty_response_witness:
  "\<not> isComplete (waitForResponse blankPage (replicate 400 (Mutation, blankPage)))
   \<and> set (sent (waitForResponse blankPage (replicate 400 (Mutation, blankPage))))
       \<subseteq> {CAPTURED_RESPONSE timeoutText}"
proof -
  have "\<forall>ev\<in>set (replicate 400 (Mutation, blankPage)). currentResponseLength (snd ev) = 0"
    by (simp add: blankPage_length)
  from empty_response_never_stable [OF blankPage_length this] show ?thesis .
qed

lemma running_facts:
  "observer (running n sd sc l)" "intervalId (running n sd sc l)"
  "\<not> isComplete (running n sd sc l)" "sent (running n sd sc l) = []"
  "checkCount (running n sd sc l) = n" "streamingDetected (running n sd sc l) = sd"
  "stableCount (running n sd sc l) = sc" "lastResponseLength (running n sd sc l) = l"
  by (simp_all add: running_def)

lemma initial_running: "initialDetector = running 0 False 0 0"
  by (simp add: running_def initialDetector_def)

lemma stop_unmet: "stopButton ob \<Longrightarrow> \<not> completionConditionsMet sd ob"
  by (simp add: completionConditionsMet_def)

lemma running_stop:
  assumes "n < maxChecks" and "stopButton ob" and "currentResponseLength ob = 0"
  shows "checkCompletion ob (running n sd sc l) = running (Suc n) True 0 l"
  using tick_unmet [OF running_facts(3) _ stop_unmet [OF assms(2)], of n sd sc l] assms
  by (simp add: running_facts)

lemma running_reset:
  assumes "n < maxChecks" and "currentResponseLength ob \<noteq> l" and "currentResponseLength ob > 0"
  shows "checkCompletion ob (running n sd sc l) =
           running (Suc n) (sd \<or> stopButton ob) 0 (currentResponseLength ob)"
proof (cases "completionConditionsMet (sd \<or> stopButton ob) ob")
  case True
  from tick_changed [of "running n sd sc l" ob] True assms
  show ?thesis by (simp add: running_facts)
next
  case False
  from tick_unmet [of "running n sd sc l" ob] False assms
  show ?thesis by (simp add: running_facts)
qed

lemma running_same:
  assumes "n < maxChecks" and "currentResponseLength ob = l" and "l > 0"
    and "Suc sc < requiredStableChecks"
  shows "\<exists>sc'\<le>Suc sc. checkCompletion ob (running n sd sc l) =
           running (Suc n) (sd \<or> stopButton ob) sc' l"
proof (cases "completionConditionsMet (sd \<or> stopButton ob) ob")
  case True
  from tick_stable [of "running n sd sc l" ob] True assms
  have "checkCompletion ob (running n sd sc l) = running (Suc n) (sd \<or> stopButton ob) (Suc sc) l"
    by (simp add: running_facts)
  then show ?thesis by blast
next
  case False
  from tick_unmet [of "running n sd sc l" ob] False assms
  have "checkCompletion ob (running n sd sc l) = running (Suc n) (sd \<or> stopButton ob) 0 l"
    by (simp add: running_facts)
  then show ?thesis by blast
qed

lemma running_stable:
  assumes "n < maxChecks" and "currentResponseLength ob = l"
    and "completionConditionsMet (sd \<or> stopButton ob) ob"
    and "Suc sc < requiredStableChecks"
  shows "checkCompletion ob (running n sd sc l) = running (Suc n) (sd \<or> stopButton ob) (Suc sc) l"
  using tick_stable [of "running n sd sc l" ob] assms
  by (simp add: running_facts)

lemma running_finished:
  assumes "n < maxChecks" and "currentResponseLength ob = l"
    and "completionConditionsMet (sd \<or> stopButton ob) ob"
    and "Suc sc \<ge> requiredStableChecks"
  shows "checkCompletion ob (running n sd sc l) =
           (running (Suc n) (sd \<or> stopButton ob) (Suc sc) l)
             \<lparr>isComplete := True, observer := False, intervalId := False,
              sent := [CAPTURED_RESPONSE
                (case lastResponse ob of None \<Rightarrow> [] | Some el \<Rightarrow> innerText_or_textContent el)]\<rparr>"
  using tick_done [of "running n sd sc l" ob] assms
  by (simp add: running_facts)

lemma fire_running: "fire (t, ob) (running n sd sc l) = checkCompletion ob (running n sd sc l)"
  by (rule fire_live) (simp_all add: running_facts)

lemma less_5_cases: "k < 5 \<Longrightarrow> k = 0 \<or> k = Suc 0 \<or> k = 2 \<or> k = 3 \<or> k = (4::nat)"
  by arith

text \<open>Ticks 1 to 3 of the scenario, whatever else the page shows.\<close>

lemma scenario_tick_3:
  assumes "currentResponseLength o1 = 0" and "currentResponseLength o2 = 0"
    and "currentResponseLength o3 = 12"
    and "stopButton o1" and "stopButton o2"
  shows "waitForResponse o1 [] = running 1 True 0 0"
    and "waitForResponse o1 [(t2, o2)] = running 2 True 0 0"
    and "waitForResponse o1 [(t2, o2), (t3, o3)] = running 3 True 0 12"
proof -
  show 1: "waitForResponse o1 [] = running 1 True 0 0"
    using running_stop [of 0 o1 False 0 0] assms
    by (simp add: waitForResponse_def initial_running maxChecks_def)
  show 2: "waitForResponse o1 [(t2, o2)] = running 2 True 0 0"
    using waitForResponse_snoc [of o1 "[]" "(t2, o2)"] running_stop [of 1 o2 True 0 0] assms
    by (simp add: 1 fire_running maxChecks_def numeral_2_eq_2)
  show "waitForResponse o1 [(t2, o2), (t3, o3)] = running 3 True 0 12"
    using waitForResponse_snoc [of o1 "[(t2, o2)]" "(t3, o3)"]
      running_reset [of 2 o3 0 True 0] assms
    by (simp add: 2 fire_running maxChecks_def numeral_3_eq_3)
qed

lemma scenario_tick_5:
  assumes "currentResponseLength o1 = 0" and "currentResponseLength o2 = 0"
    and "currentResponseLength o3 = 12" and "currentResponseLength o4 = 12"
    and "currentResponseLength o5 = 12"
    and "stopButton o1" and "stopButton o2"
  shows "\<forall>k<5. \<not> isComplete (waitForResponse o1 (take k [(t2, o2), (t3, o3), (t4, o4), (t5, o5)]))
              \<and> sent (waitForResponse o1 (take k [(t2, o2), (t3, o3), (t4, o4), (t5, o5)])) = []"
proof -
  note three = scenario_tick_3 [OF assms(1-3) assms(6,7)]
  obtain s4 where s4: "s4 \<le> 1"
    "checkCompletion o4 (running 3 True 0 12) = running 4 (True \<or> stopButton o4) s4 12"
    using running_same [of 3 o4 12 0 True] assms(4)
    by (auto simp add: maxChecks_def requiredStableChecks_def numeral_Bit0 numeral_Bit1)
  have w4: "waitForResponse o1 [(t2, o2), (t3, o3), (t4, o4)] = running 4 True s4 12"
    using waitForResponse_snoc [of o1 "[(t2, o2), (t3, o3)]" "(t4, o4)"] s4(2)
    by (simp add: three fire_running)
  obtain s5 where s5:
    "checkCompletion o5 (running 4 True s4 12) = running 5 (True \<or> stopButton o5) s5 12"
    using running_same [of 4 o5 12 s4 True] assms(5) s4(1)
    by (auto simp add: maxChecks_def requiredStableChecks_def numeral_Bit0 numeral_Bit1)
  have w5: "waitForResponse o1 [(t2, o2), (t3, o3), (t4, o4), (t5, o5)] = running 5 True s5 12"
    using waitForResponse_snoc [of o1 "[(t2, o2), (t3, o3), (t4, o4)]" "(t5, o5)"] s5
    by (simp add: w4 fire_running)
  show ?thesis
  proof (intro allI impI)
    fix k :: nat
    assume "k < 5"
    from less_5_cases [OF this]
    show "\<not> isComplete (waitForResponse o1 (take k [(t2, o2), (t3, o3), (t4, o4), (t5, o5)]))
              \<and> sent (waitForResponse o1 (take k [(t2, o2), (t3, o3), (t4, o4), (t5, o5)])) = []"
      by (elim disjE) (simp_all add: three w4 w5 running_facts numeral_2_eq_2 numeral_3_eq_3 eval_nat_numeral)
  qed
qed

lemma settled_met:
  "settled ob \<Longrightarrow> \<not> stopButton ob \<Longrightarrow> currentResponseLength ob > 0 \<Longrightarrow>
   completionConditionsMet True ob"
  by (auto simp add: completionConditionsMet_def settled_def currentResponseLength_def
      split: option.splits)

text \<open>
  Claim C1, as the code has it. With response lengths 0, 0, 12, 12, 12, 12, the stop
  button shown on the first two ticks only, and ticks 4 to 6 showing no streaming indicator
  and no disabled send button, the detector is not complete and has sent nothing on any of
  the ticks 1 to 5; it completes at tick 6, sends the text of the latest response block and
  releases both handles. The first tick of length 12 only records the new length.
\<close>

theorem stability_law_tick_6:
  assumes lengths: "map currentResponseLength [o1, o2, o3, o4, o5, o6] = [0, 0, 12, 12, 12, 12]"
    and stops: "map stopButton [o1, o2, o3, o4, o5, o6] = [True, True, False, False, False, False]"
    and quiet: "settled o4 \<and> settled o5 \<and> settled o6"
  shows "(\<forall>k<5. \<not> isComplete (waitForResponse o1
                     (take k [(t2, o2), (t3, o3), (t4, o4), (t5, o5), (t6, o6)]))
              \<and> sent (waitForResponse o1
                     (take k [(t2, o2), (t3, o3), (t4, o4), (t5, o5), (t6, o6)])) = [])
         \<and> isComplete (waitForResponse o1 [(t2, o2), (t3, o3), (t4, o4), (t5, o5), (t6, o6)])
         \<and> sent (waitForResponse o1 [(t2, o2), (t3, o3), (t4, o4), (t5, o5), (t6, o6)])
             = [CAPTURED_RESPONSE (innerText_or_textContent (last (responses o6)))]
         \<and> \<not> observer (waitForResponse o1 [(t2, o2), (t3, o3), (t4, o4), (t5, o5), (t6, o6)])
         \<and> \<not> intervalId (waitForResponse o1 [(t2, o2), (t3, o3), (t4, o4), (t5, o5), (t6, o6)])"
proof -
  from lengths have l: "currentResponseLength o1 = 0" "currentResponseLength o2 = 0"
    "currentResponseLength o3 = 12" "currentResponseLength o4 = 12"
    "currentResponseLength o5 = 12" "currentResponseLength o6 = 12"
    by simp_all
  from stops have s: "stopButton o1" "stopButton o2" "\<not> stopButton o4" "\<not> stopButton o5"
    "\<not> stopButton o6"
    by simp_all
  have m: "completionConditionsMet (True \<or> stopButton o4) o4"
    "completionConditionsMet (True \<or> stopButton o5) o5"
    "completionConditionsMet (True \<or> stopButton o6) o6"
    using quiet s l by (simp_all add: settled_met)
  note three = scenario_tick_3 [OF l(1-3) s(1,2)]
  note early = scenario_tick_5 [OF l(1-5) s(1,2), of t2 t3 t4 t5]
  have w4: "waitForResponse o1 [(t2, o2), (t3, o3), (t4, o4)] = running 4 True 1 12"
    using waitForResponse_snoc [of o1 "[(t2, o2), (t3, o3)]" "(t4, o4)"]
      running_stable [of 3 o4 12 True 0] l(4) m(1)
    by (simp add: three fire_running maxChecks_def requiredStableChecks_def)
  have w5: "waitForResponse o1 [(t2, o2), (t3, o3), (t4, o4), (t5, o5)] = running 5 True 2 12"
    using waitForResponse_snoc [of o1 "[(t2, o2), (t3, o3), (t4, o4)]" "(t5, o5)"]
      running_stable [of 4 o5 12 True 1] l(5) m(2)
    by (simp add: w4 fire_running maxChecks_def requiredStableChecks_def numeral_2_eq_2)
  have last6: "lastResponse o6 = Some (last (responses o6))"
    using l(6) by (auto simp add: currentResponseLength_def lastResponse_def split: if_splits)
  have w6: "waitForResponse o1 [(t2, o2), (t3, o3), (t4, o4), (t5, o5), (t6, o6)] =
      (running 6 True 3 12)
        \<lparr>isComplete := True, observer := False, intervalId := False,
         sent := [CAPTURED_RESPONSE (innerText_or_textContent (last (responses o6)))]\<rparr>"
    using waitForResponse_snoc [of o1 "[(t2, o2), (t3, o3), (t4, o4), (t5, o5)]" "(t6, o6)"]
      running_finished [of 5 o6 12 True 2] l(6) m(3)
    by (simp add: w5 fire_running maxChecks_def requiredStableChecks_def last6 numeral_2_eq_2
        numeral_3_eq_3)
  have "\<not> isComplete (waitForResponse o1
                     (take k [(t2, o2), (t3, o3), (t4, o4), (t5, o5), (t6, o6)]))
              \<and> sent (waitForResponse o1
                     (take k [(t2, o2), (t3, o3), (t4, o4), (t5, o5), (t6, o6)])) = []"
    if "k < 5" for k
  proof -
    have "take k [(t2, o2), (t3, o3), (t4, o4), (t5, o5), (t6, o6)]
          = take k [(t2, o2), (t3, o3), (t4, o4), (t5, o5)]"
      using less_5_cases [OF that] by (elim disjE) (simp_all add: eval_nat_numeral)
    with early that show ?thesis by simp
  qed
  then show ?thesis by (simp add: w6 numeral_3_eq_3)
qed

lemma generatingPage_facts:
  "currentResponseLength generatingPage = 0" "stopButton generatingPage"
  by (simp_all add: generatingPage_def blankPage_def currentResponseLength_def lastResponse_def
      responses_def stopButton_def)

lemma answeredPage_facts:
  "currentResponseLength answeredPage = 12" "\<not> stopButton answeredPage" "settled answeredPage"
  "last (responses answeredPage) =
     \<lparr>innerText = Some (lit ''Hello world!''), textContent = lit ''Hello world!''\<rparr>"
  by (simp_all add: answeredPage_def blankPage_def currentResponseLength_def lastResponse_def
      responses_def stopButton_def settled_def sendButton_def or_else_def lit_def)

text \<open>
  The law on the example pages.
\<close>

theorem stability_law_witness:
  "isComplete (waitForResponse generatingPage
      [(Interval, generatingPage), (Mutation, answeredPage), (Interval, answeredPage),
       (Interval, answeredPage), (Interval, answeredPage)])
   \<and> \<not> isComplete (waitForResponse generatingPage
      (take 4 [(Interval, generatingPage), (Mutation, answeredPage), (Interval, answeredPage),
       (Interval, answeredPage), (Interval, answeredPage)]))
   \<and> sent (waitForResponse generatingPage
      [(Interval, generatingPage), (Mutation, answeredPage), (Interval, answeredPage),
       (Interval, answeredPage), (Interval, answeredPage)])
     = [CAPTURED_RESPONSE (lit ''Hello world!'')]"
proof -
  have 1: "map currentResponseLength [generatingPage, generatingPage, answeredPage, answeredPage,
      answeredPage, answeredPage] = [0, 0, 12, 12, 12, 12]"
    by (simp add: generatingPage_facts answeredPage_facts)
  have 2: "map stopButton [generatingPage, generatingPage, answeredPage, answeredPage,
      answeredPage, answeredPage] = [True, True, False, False, False, False]"
    by (simp add: generatingPage_facts answeredPage_facts)
  have 3: "settled answeredPage \<and> settled answeredPage \<and> settled answeredPage"
    by (simp add: answeredPage_facts)
  have 4: "innerText_or_textContent (last (responses answeredPage)) = lit ''Hello world!''"
    by (simp add: answeredPage_facts innerText_or_textContent_def or_str_def lit_def)
  note law = stability_law_tick_6 [OF 1 2 3, of Interval Mutation Interval Interval Interval]
  from law [THEN conjunct1, rule_format, of 4] law [THEN conjunct2]
  show ?thesis by (simp add: 4)
qed

text \<open>
  Claim C1 as stated fails: with lengths 0, 0, 12, 12, 12 and the stop button on the first
  two ticks, the detector is not complete after tick 5; the stability counter is 2.
\<close>

theorem stability_law_not_at_tick_5:
  "map currentResponseLength
     [generatingPage, generatingPage, answeredPage, answeredPage, answeredPage] = [0, 0, 12, 12, 12]
   \<and> map stopButton
     [generatingPage, generatingPage, answeredPage, answeredPage, answeredPage]
       = [True, True, False, False, False]
   \<and> \<not> isComplete (waitForResponse generatingPage
      [(Interval, generatingPage), (Interval, answeredPage), (Interval, answeredPage),
       (Interval, answeredPage)])
   \<and> sent (waitForResponse generatingPage
      [(Interval, generatingPage), (Interval, answeredPage), (Interval, answeredPage),
       (Interval, answeredPage)]) = []
   \<and> stableCount (waitForResponse generatingPage
      [(Interval, generatingPage), (Interval, answeredPage), (Interval, answeredPage),
       (Interval, answeredPage)]) = 2"
proof -
  note g = generatingPage_facts
  note a = answeredPage_facts
  note three = scenario_tick_3 [OF g(1) g(1) a(1) g(2) g(2)]
  have m: "completionConditionsMet (True \<or> stopButton answeredPage) answeredPage"
    using a by (simp add: settled_met)
  have w4: "waitForResponse generatingPage
      [(Interval, generatingPage), (Interval, answeredPage), (Interval, answeredPage)]
      = running 4 True 1 12"
    using waitForResponse_snoc [of generatingPage
        "[(Interval, generatingPage), (Interval, answeredPage)]" "(Interval, answeredPage)"]
      running_stable [of 3 answeredPage 12 True 0] a(1) m
    by (simp add: three fire_running maxChecks_def requiredStableChecks_def)
  have w5: "waitForResponse generatingPage
      [(Interval, generatingPage), (Interval, answeredPage), (Interval, answeredPage),
       (Interval, answeredPage)] = running 5 True 2 12"
    using waitForResponse_snoc [of generatingPage
        "[(Interval, generatingPage), (Interval, answeredPage), (Interval, answeredPage)]"
        "(Interval, answeredPage)"]
      running_stable [of 4 answeredPage 12 True 1] a(1) m
    by (simp add: w4 fire_running maxChecks_def requiredStableChecks_def numeral_2_eq_2)
  show ?thesis by (simp add: w5 running_facts g a numeral_2_eq_2)
qed

section \<open>Properties of the facade\<close>

lemma initialize_initialized: "isInitialized (initialize s)"
  by (simp add: initialize_def Let_def)

lemma initialize_again: "isInitialized s \<Longrightarrow> initialize s = s"
  by (simp add: initialize_def)

lemma initialize_newApi:
  "initialize newApi = newApi\<lparr>isInitialized := True, messageListener := True, busListeners := 1\<rparr>"
  by (simp add: initialize_def newApi_def)

text \<open>
  Claim C7. Calling \<open>initialize\<close> once more changes nothing: any number \<open>n + 1\<close> of
  calls leaves the instance as one call does, and on a new instance registers exactly one
  listener on the bus.
\<close>

theorem initialize_idempotent:
  "(initialize ^^ Suc n) s = initialize s
   \<and> busListeners ((initialize ^^ Suc n) newApi) = 1
   \<and> isInitialized ((initialize ^^ Suc n) newApi)"
proof -
  have rep: "(initialize ^^ Suc n) s = initialize s" for s
  proof (induction n)
    case 0
    show ?case by simp
  next
    case (Suc n)
    have "(initialize ^^ Suc (Suc n)) s = initialize ((initialize ^^ Suc n) s)" by simp
    also have "\<dots> = initialize (initialize s)" by (simp only: Suc.IH)
    also have "\<dots> = initialize s" by (rule initialize_again) (rule initialize_initialized)
    finally show ?case .
  qed
  show ?thesis by (simp only: rep initialize_newApi) simp
qed

lemma responseHandler_other:
  "j \<noteq> i \<Longrightarrow> requests (responseHandler i t s) j = requests s j"
  by (simp add: responseHandler_def finish_def split: option.splits)

lemma responseHandler_listeners:
  "j \<noteq> i \<Longrightarrow> (j \<in> set (responseListeners (responseHandler i t s))) = (j \<in> set (responseListeners s))"
  by (simp add: responseHandler_def finish_def split: option.splits)

lemma responseHandler_listeners_subset:
  "set (responseListeners (responseHandler i t s)) \<subseteq> set (responseListeners s)"
  by (auto simp add: responseHandler_def finish_def split: option.splits)

lemma responseHandler_pending:
  "requests s i = Some r \<Longrightarrow> \<not> resolved r \<Longrightarrow>
   requests (responseHandler i t s) i =
     Some (r\<lparr>resolved := True, timeoutId := False, settlements := settlements r @ [Resolved t]\<rparr>)"
  by (simp add: responseHandler_def finish_def)

lemma responseHandler_resolved:
  "requests s i = Some r \<Longrightarrow> resolved r \<Longrightarrow> responseHandler i t s = s"
  by (simp add: responseHandler_def)

lemma responseHandler_nextRequest: "nextRequest (responseHandler i t s) = nextRequest s"
  by (simp add: responseHandler_def finish_def split: option.splits)

lemma forEach_keeps_resolved:
  "requests s i = Some r \<Longrightarrow> resolved r \<Longrightarrow> requests (forEach js t s) i = Some r"
proof (induction js arbitrary: s)
  case Nil
  then show ?case by simp
next
  case (Cons j js)
  show ?case
  proof (cases "j = i")
    case True
    with Cons.prems have "responseHandler j t s = s" by (simp add: responseHandler_resolved)
    with Cons show ?thesis by simp
  next
    case False
    with Cons.prems have "requests (responseHandler j t s) i = Some r"
      by (simp add: responseHandler_other)
    with Cons show ?thesis by simp
  qed
qed

lemma forEach_resolves:
  assumes "i \<in> set js" and "i \<in> set (responseListeners s)"
    and "requests s i = Some r" and "\<not> resolved r"
  shows "requests (forEach js t s) i =
     Some (r\<lparr>resolved := True, timeoutId := False, settlements := settlements r @ [Resolved t]\<rparr>)"
  using assms
proof (induction js arbitrary: s)
  case Nil
  then show ?case by simp
next
  case (Cons j js)
  show ?case
  proof (cases "j = i")
    case True
    from Cons.prems(3,4)
    have "requests (responseHandler i t s) i =
      Some (r\<lparr>resolved := True, timeoutId := False, settlements := settlements r @ [Resolved t]\<rparr>)"
      by (rule responseHandler_pending)
    then have "requests (forEach js t (responseHandler i t s)) i =
      Some (r\<lparr>resolved := True, timeoutId := False, settlements := settlements r @ [Resolved t]\<rparr>)"
      by (rule forEach_keeps_resolved) simp
    with True Cons.prems(2) show ?thesis by simp
  next
    case False
    with Cons.prems(1) have in_js: "i \<in> set js" by simp
    show ?thesis
    proof (cases "j \<in> set (responseListeners s)")
      case True
      have "requests (forEach js t (responseHandler j t s)) i =
        Some (r\<lparr>resolved := True, timeoutId := False, settlements := settlements r @ [Resolved t]\<rparr>)"
      proof (rule Cons.IH [OF in_js])
        show "i \<in> set (responseListeners (responseHandler j t s))"
          using False Cons.prems(2) by (simp add: responseHandler_listeners)
        show "requests (responseHandler j t s) i = Some r"
          using False Cons.prems(3) by (simp add: responseHandler_other)
        show "\<not> resolved r" by (fact Cons.prems(4))
      qed
      with True show ?thesis by simp
    next
      case False
      with Cons.IH [OF in_js Cons.prems(2-4)] show ?thesis by simp
    qed
  qed
qed

lemma sendPrompt_registers:
  assumes "sendPrompt p opts s = Inr (i, s')"
  shows "i = nextRequest s" and "nextRequest s' = Suc i"
    and "responseListeners s' = responseListeners s @ [i]"
    and "\<exists>r. requests s' i = Some r \<and> \<not> resolved r \<and> settlements r = []"
    and "\<And>j. j \<noteq> i \<Longrightarrow> requests s' j = requests s j"
    and "isInitialized s" and "isInitialized s' = isInitialized s"
  using assms by (auto simp add: sendPrompt_def Let_def split: if_splits)

lemma settlementsOf_Some: "requests s i = Some r \<Longrightarrow> settlementsOf i s = settlements r"
  by (simp add: settlementsOf_def)

text \<open>
  Claim C4. When the listener handles a captured response, every handler in the set whose
  request is pending is called with that text and resolves its request with it. So after
  two \<open>sendPrompt\<close> calls on any instance, one captured response resolves both requests
  with the same text: there is no correlation of a response with a request.
\<close>

theorem response_broadcast:
  "(\<forall>i r. i \<in> set (responseListeners s) \<and> requests s i = Some r \<and> \<not> resolved r \<longrightarrow>
       requests (messageListenerCall (CAPTURED_RESPONSE t) s) i =
         Some (r\<lparr>resolved := True, timeoutId := False,
                 settlements := settlements r @ [Resolved t]\<rparr>))
   \<and> (\<forall>p1 opts1 i s1 p2 opts2 j s2.
        sendPrompt p1 opts1 s = Inr (i, s1) \<and> sendPrompt p2 opts2 s1 = Inr (j, s2) \<longrightarrow>
          i \<noteq> j
          \<and> settlementsOf i (messageListenerCall (CAPTURED_RESPONSE t) s2) = [Resolved t]
          \<and> settlementsOf j (messageListenerCall (CAPTURED_RESPONSE t) s2) = [Resolved t])"
proof -
  have all: "requests (messageListenerCall (CAPTURED_RESPONSE t) s) i =
         Some (r\<lparr>resolved := True, timeoutId := False,
                 settlements := settlements r @ [Resolved t]\<rparr>)"
    if "i \<in> set (responseListeners s)" and "requests s i = Some r" and "\<not> resolved r"
    for s i r
    using forEach_resolves [OF that(1) that] by (simp add: messageListenerCall_def handleResponse_def)
  have two: "i \<noteq> j
          \<and> settlementsOf i (messageListenerCall (CAPTURED_RESPONSE t) s2) = [Resolved t]
          \<and> settlementsOf j (messageListenerCall (CAPTURED_RESPONSE t) s2) = [Resolved t]"
    if a: "sendPrompt p1 opts1 s = Inr (i, s1)" and b: "sendPrompt p2 opts2 s1 = Inr (j, s2)"
    for p1 opts1 i s1 p2 opts2 j s2
  proof -
    note A = sendPrompt_registers [OF a]
    note B = sendPrompt_registers [OF b]
    from A(2) B(1) have ne: "i \<noteq> j" by simp
    from A(4) obtain ri where ri: "requests s1 i = Some ri" "\<not> resolved ri" "settlements ri = []"
      by blast
    from B(4) obtain rj where rj: "requests s2 j = Some rj" "\<not> resolved rj" "settlements rj = []"
      by blast
    from ri(1) B(5) [of i] ne have ri2: "requests s2 i = Some ri" by simp
    have li: "i \<in> set (responseListeners s2)" by (simp add: A(3) B(3))
    have lj: "j \<in> set (responseListeners s2)" by (simp add: B(3))
    from all [OF li ri2 ri(2)] all [OF lj rj(1,2)] ne ri(3) rj(3)
    show ?thesis by (simp add: settlementsOf_def)
  qed
  from all two show ?thesis by blast
qed

lemma evolves_refl: "evolves r r"
  by (simp add: evolves_def)

lemma localStep_refl: "localStep s s"
  by (auto simp add: localStep_def option.rel_refl evolves_refl)

lemma localStep_requests:
  "localStep s s' \<Longrightarrow> rel_option evolves (requests s k) (requests s' k)"
  by (simp add: localStep_def)

lemma evolves_ok: "requestOk r \<Longrightarrow> evolves r r' \<Longrightarrow> requestOk r'"
  unfolding requestOk_def evolves_def by (cases "resolved r") auto

lemma localStep_wellFormed:
  assumes "wellFormed s" and "localStep s s'"
  shows "wellFormed s'"
  unfolding wellFormed_def
proof
  fix k
  from assms(2) have rel: "rel_option evolves (requests s k) (requests s' k)"
    and nx: "nextRequest s' = nextRequest s"
    and ls: "k \<in> set (responseListeners s') \<Longrightarrow> k \<in> set (responseListeners s)
              \<and> (\<forall>r r'. requests s k = Some r \<and> requests s' k = Some r' \<and> resolved r'
                  \<longrightarrow> resolved r)"
    by (simp_all add: localStep_def)
  from assms(1) have wf: "case requests s k of None \<Rightarrow> True
      | Some r \<Rightarrow> k < nextRequest s \<and> requestOk r
                     \<and> (resolved r \<longrightarrow> k \<notin> set (responseListeners s))"
    by (simp add: wellFormed_def)
  show "case requests s' k of None \<Rightarrow> True
      | Some r \<Rightarrow> k < nextRequest s' \<and> requestOk r
                     \<and> (resolved r \<longrightarrow> k \<notin> set (responseListeners s'))"
  proof (cases "requests s' k")
    case None
    then show ?thesis by simp
  next
    case (Some r')
    with rel obtain r where r: "requests s k = Some r" "evolves r r'"
      by (cases "requests s k") simp_all
    with wf have old: "k < nextRequest s" "requestOk r"
      "resolved r \<longrightarrow> k \<notin> set (responseListeners s)"
      by simp_all
    have "k \<notin> set (responseListeners s')" if "resolved r'"
    proof
      assume "k \<in> set (responseListeners s')"
      from ls [OF this] r(1) Some that old(3) show False by blast
    qed
    with old r(2) Some nx show ?thesis by (simp add: evolves_ok)
  qed
qed

lemma localStep_stalledAt:
  assumes "stalledAt i s" and "localStep s s'"
  shows "stalledAt i s'"
proof -
  from assms(1) obtain r where r: "requests s i = Some r" "resolved r" "settlements r = []"
    "\<not> timeoutId r"
    by (auto simp add: stalledAt_def split: option.splits)
  from assms(2) have "rel_option evolves (requests s i) (requests s' i)"
    by (simp add: localStep_def)
  with r(1) obtain r' where r': "requests s' i = Some r'" "evolves r r'"
    by (cases "requests s' i") simp_all
  with r show ?thesis by (simp add: stalledAt_def evolves_def)
qed

lemma localStep_update:
  assumes "requests s i = Some r" and "evolves r r'"
    and "requests s' = (requests s)(i \<mapsto> r')" and "nextRequest s' = nextRequest s"
    and "set (responseListeners s') \<subseteq> set (responseListeners s)"
    and "resolved r' \<Longrightarrow> resolved r \<or> i \<notin> set (responseListeners s')"
  shows "localStep s s'"
  unfolding localStep_def
proof (intro conjI allI ballI impI)
  show "nextRequest s' = nextRequest s" by (fact assms(4))
  show "rel_option evolves (requests s k) (requests s' k)" for k
    using assms(1-3) by (simp add: option.rel_refl evolves_refl)
  show "k \<in> set (responseListeners s)" if "k \<in> set (responseListeners s')" for k
    using that assms(5) by blast
  show "resolved a" if "k \<in> set (responseListeners s')"
    and "requests s k = Some a \<and> requests s' k = Some b \<and> resolved b" for k a b
    using that assms(1,3,6) by (cases "k = i") auto
qed

lemma finish_evolves:
  "\<not> resolved r \<Longrightarrow> length calls \<le> 1 \<Longrightarrow>
   evolves r (r\<lparr>resolved := True, timeoutId := False, settlements := settlements r @ calls\<rparr>)"
  by (cases calls) (simp_all add: evolves_def)

lemma finish_localStep:
  assumes "requests s i = Some r" and "\<not> resolved r" and "length calls \<le> 1"
  shows "localStep s (finish i r calls s)"
  by (rule localStep_update [OF assms(1) finish_evolves [OF assms(2,3)]])
    (auto simp add: finish_def)

lemma responseHandler_localStep: "localStep s (responseHandler i t s)"
  by (simp add: responseHandler_def localStep_refl finish_localStep split: option.splits)

lemma timeoutFires_localStep: "localStep s (timeoutFires i s)"
proof (cases "requests s i")
  case None
  then show ?thesis by (simp add: timeoutFires_def localStep_refl)
next
  case (Some r)
  have "localStep s (s\<lparr>requests := (requests s)(i \<mapsto> r\<lparr>timeoutId := False\<rparr>)\<rparr>)"
    by (rule localStep_update [OF Some, of "r\<lparr>timeoutId := False\<rparr>"]) (simp_all add: evolves_def)
  with Some show ?thesis
    by (simp add: timeoutFires_def localStep_refl finish_localStep)
qed

lemma progress_localStep:
  assumes "requests s i = Some r"
  shows "localStep s (s\<lparr>requests := (requests s)(i \<mapsto> r\<lparr>progress := progress r @ [m]\<rparr>)\<rparr>)"
  by (rule localStep_update [OF assms, of "r\<lparr>progress := progress r @ [m]\<rparr>"])
    (simp_all add: evolves_def)

lemma sendCallback_localStep: "localStep s (sendCallback i lastError s)"
  by (simp add: sendCallback_def localStep_refl finish_localStep progress_localStep
      split: option.splits)

lemma localStep_tabMessages:
  "localStep s s' \<Longrightarrow> localStep s (s'\<lparr>tabMessages := ms\<rparr>)"
  by (simp add: localStep_def)

lemma localStep_listeners:
  "localStep a b \<Longrightarrow> k \<in> set (responseListeners b) \<Longrightarrow> k \<in> set (responseListeners a)"
  by (simp add: localStep_def)

lemma localStep_newly_resolved:
  "localStep a b \<Longrightarrow> k \<in> set (responseListeners b) \<Longrightarrow> requests a k = Some r \<Longrightarrow>
   requests b k = Some r' \<Longrightarrow> resolved r' \<Longrightarrow> resolved r"
  unfolding localStep_def by blast

lemma evolves_trans: "evolves a b \<Longrightarrow> evolves b c \<Longrightarrow> evolves a c"
  unfolding evolves_def by (cases "resolved a"; cases "resolved b") auto

lemma localStep_trans:
  assumes "localStep a b" and "localStep b c"
  shows "localStep a c"
  unfolding localStep_def
proof (intro conjI allI ballI impI)
  show "nextRequest c = nextRequest a" using assms by (simp add: localStep_def)
  show "rel_option evolves (requests a k) (requests c k)" for k
    using localStep_requests [OF assms(1), of k] localStep_requests [OF assms(2), of k]
    by (cases "requests a k"; cases "requests b k"; cases "requests c k")
      (auto intro: evolves_trans)
  show "k \<in> set (responseListeners a)" if "k \<in> set (responseListeners c)" for k
    using that assms by (blast dest: localStep_listeners)
  show "resolved r" if k: "k \<in> set (responseListeners c)"
    and rr: "requests a k = Some r \<and> requests c k = Some r' \<and> resolved r'" for k r r'
  proof -
    from localStep_requests [OF assms(1), of k] rr
    obtain m where m: "requests b k = Some m" by (cases "requests b k") simp_all
    from localStep_newly_resolved [OF assms(2) k m] rr have "resolved m" by blast
    with localStep_newly_resolved [OF assms(1) localStep_listeners [OF assms(2) k] _ m] rr
    show ?thesis by blast
  qed
qed

lemma afterTabLookup_localStep: "localStep s (afterTabLookup i q sendThrows s)"
proof (cases "requests s i")
  case None
  then show ?thesis by (simp add: afterTabLookup_def localStep_refl)
next
  case (Some r)
  show ?thesis
  proof (cases "getChatGPTTab q")
    case None
    show ?thesis
    proof (cases "resolved r")
      case True
      with Some None show ?thesis by (simp add: afterTabLookup_def tryBlock_def localStep_refl)
    next
      case False
      have fin: "localStep s (finish i r [] s)"
        by (rule finish_localStep [OF Some False]) simp
      have "requests (finish i r [] s) i
            = Some (r\<lparr>resolved := True, timeoutId := False, settlements := settlements r @ []\<rparr>)"
        by (simp add: finish_def)
      then have "catchBlock i TargetNotFound (finish i r [] s) = finish i r [] s"
        by (simp add: catchBlock_def)
      with Some None False fin show ?thesis by (simp add: afterTabLookup_def tryBlock_def)
    qed
  next
    case tab: (Some t)
    let ?s1 = "s\<lparr>requests := (requests s)(i \<mapsto>
                      r\<lparr>progress := progress r @ [lit ''Sending prompt...'']\<rparr>)\<rparr>"
    have p: "localStep s ?s1" by (rule progress_localStep [OF Some])
    show ?thesis
    proof (cases sendThrows)
      case None
      with Some tab localStep_tabMessages [OF p] show ?thesis
        by (simp add: afterTabLookup_def tryBlock_def Let_def)
    next
      case thrown: (Some m)
      have c: "localStep ?s1 (catchBlock i (Thrown m) ?s1)"
        by (simp add: catchBlock_def localStep_refl finish_localStep)
      from localStep_trans [OF p c] Some tab thrown show ?thesis
        by (simp add: afterTabLookup_def tryBlock_def Let_def)
    qed
  qed
qed

lemma forEach_localStep: "localStep s (forEach js t s)"
proof (induction js arbitrary: s)
  case Nil
  show ?case by (simp add: localStep_refl)
next
  case (Cons j js)
  from localStep_trans [OF responseHandler_localStep [of s j t] Cons.IH [of "responseHandler j t s"]]
  show ?case by (simp add: Cons.IH)
qed

lemma messageListenerCall_localStep: "localStep s (messageListenerCall m s)"
  by (cases m) (simp_all add: messageListenerCall_def handleResponse_def forEach_localStep
      localStep_refl)

lemma funpow_localStep:
  "(\<And>s. localStep s (f s)) \<Longrightarrow> localStep s ((f ^^ n) s)"
proof (induction n)
  case 0
  show ?case by (simp add: localStep_refl)
next
  case (Suc n)
  from localStep_trans [OF Suc.IH [OF Suc.prems] Suc.prems [of "(f ^^ n) s"]]
  show ?case by simp
qed

lemma deliver_localStep: "localStep s (deliver m s)"
  unfolding deliver_def by (rule funpow_localStep) (rule messageListenerCall_localStep)

lemma initialize_localStep: "localStep s (initialize s)"
  by (auto simp add: initialize_def Let_def localStep_def option.rel_refl evolves_refl)

lemma sendPrompt_wellFormed:
  assumes "wellFormed s" and "sendPrompt p opts s = Inr (i, s')"
  shows "wellFormed s'"
  unfolding wellFormed_def
proof
  fix k
  note R = sendPrompt_registers [OF assms(2)]
  from assms(1) have wf: "case requests s k of None \<Rightarrow> True
      | Some r \<Rightarrow> k < nextRequest s \<and> requestOk r
                     \<and> (resolved r \<longrightarrow> k \<notin> set (responseListeners s))"
    by (simp add: wellFormed_def)
  show "case requests s' k of None \<Rightarrow> True
      | Some r \<Rightarrow> k < nextRequest s' \<and> requestOk r
                     \<and> (resolved r \<longrightarrow> k \<notin> set (responseListeners s'))"
  proof (cases "k = i")
    case True
    with R(2,4) show ?thesis by (auto simp add: requestOk_def)
  next
    case False
    with R(5) have "requests s' k = requests s k" by simp
    with wf False R(1-3) show ?thesis by (auto split: option.splits)
  qed
qed

lemma sendPrompt_stalledAt:
  assumes "wellFormed s" and "stalledAt i s" and "sendPrompt p opts s = Inr (j, s')"
  shows "stalledAt i s'"
proof -
  note R = sendPrompt_registers [OF assms(3)]
  from assms(2) obtain r where r: "requests s i = Some r"
    by (auto simp add: stalledAt_def split: option.splits)
  with assms(1) have "i < nextRequest s"
    by (auto simp add: wellFormed_def split: option.splits dest: spec [of _ i])
  with R(1) have "i \<noteq> j" by simp
  with R(5) have "requests s' i = requests s i" by simp
  with assms(2) show ?thesis by (simp add: stalledAt_def)
qed

lemma step_localStep:
  "case e of SendPrompt p opts \<Rightarrow> True | _ \<Rightarrow> localStep s (step e s)"
  by (cases e)
    (simp_all add: initialize_localStep timeoutFires_localStep afterTabLookup_localStep
      sendCallback_localStep deliver_localStep)

lemma step_wellFormed:
  assumes wf: "wellFormed s"
  shows "wellFormed (step e s)"
proof (cases "\<exists>p opts. e = SendPrompt p opts")
  case True
  then obtain p opts where e: "e = SendPrompt p opts" by blast
  show ?thesis
  proof (cases "sendPrompt p opts s")
    case (Inl err)
    with e wf show ?thesis by simp
  next
    case (Inr res)
    obtain i s' where "res = (i, s')" by (cases res)
    with Inr e sendPrompt_wellFormed [OF wf, of p opts i s'] show ?thesis by simp
  qed
next
  case False
  with step_localStep [where e = e and s = s] have "localStep s (step e s)" by (cases e) simp_all
  with wf show ?thesis by (rule localStep_wellFormed)
qed

lemma step_stalledAt:
  assumes wf: "wellFormed s" and st: "stalledAt i s"
  shows "stalledAt i (step e s)"
proof (cases "\<exists>p opts. e = SendPrompt p opts")
  case True
  then obtain p opts where e: "e = SendPrompt p opts" by blast
  show ?thesis
  proof (cases "sendPrompt p opts s")
    case (Inl err)
    with e st show ?thesis by simp
  next
    case (Inr res)
    obtain j s' where "res = (j, s')" by (cases res)
    with Inr e sendPrompt_stalledAt [OF wf st, of p opts j s'] show ?thesis by simp
  qed
next
  case False
  with step_localStep [where e = e and s = s] have "localStep s (step e s)" by (cases e) simp_all
  with st show ?thesis by (rule localStep_stalledAt)
qed

lemma run_wellFormed: "wellFormed s \<Longrightarrow> wellFormed (fold step evs s)"
  by (induction evs arbitrary: s) (simp_all add: step_wellFormed)

lemma run_stalledAt: "wellFormed s \<Longrightarrow> stalledAt i s \<Longrightarrow> stalledAt i (fold step evs s)"
  by (induction evs arbitrary: s) (simp_all add: step_wellFormed step_stalledAt)

lemma newApi_wellFormed: "wellFormed newApi"
  by (simp add: wellFormed_def newApi_def)

text \<open>
  What holds of every request in every run of a new instance: \<open>resolve\<close> and \<open>reject\<close>
  are called at most once in all, and after a call the flag is set, the timer disarmed and
  the handler out of the set.
\<close>

lemma settled_at_most_once:
  "length (settlementsOf i (fold step evs newApi)) \<le> 1"
proof -
  have "wellFormed (fold step evs newApi)" by (rule run_wellFormed) (rule newApi_wellFormed)
  then show ?thesis
    by (auto simp add: wellFormed_def settlementsOf_def requestOk_def split: option.splits
        dest: spec [of _ i])
qed

lemma settled_releases:
  assumes "requests (fold step evs newApi) i = Some r" and "settlements r \<noteq> []"
  shows "resolved r \<and> \<not> timeoutId r \<and> i \<notin> set (responseListeners (fold step evs newApi))"
proof -
  have "wellFormed (fold step evs newApi)" by (rule run_wellFormed) (rule newApi_wellFormed)
  with assms show ?thesis
    by (auto simp add: wellFormed_def requestOk_def split: option.splits dest: spec [of _ i])
qed

lemma dropWhile_all: "(\<forall>x\<in>set (dropWhile P t). P x) \<longleftrightarrow> (\<forall>x\<in>set t. P x)"
proof
  assume all: "\<forall>x\<in>set (dropWhile P t). P x"
  have "dropWhile P t = []"
  proof (rule ccontr)
    assume ne: "dropWhile P t \<noteq> []"
    then have "\<not> P (hd (dropWhile P t))" by (rule hd_dropWhile)
    moreover from ne have "hd (dropWhile P t) \<in> set (dropWhile P t)" by simp
    ultimately show False using all by blast
  qed
  then show "\<forall>x\<in>set t. P x" by simp
next
  assume "\<forall>x\<in>set t. P x"
  then show "\<forall>x\<in>set (dropWhile P t). P x" by (blast dest: set_dropWhileD)
qed

lemma trim_empty_iff: "trim t = [] \<longleftrightarrow> (\<forall>c\<in>set t. isWhiteSpace c)"
  by (simp add: trim_def dropWhile_all)

lemma hello_accepted: "\<not> promptRejected (JSString (lit ''hello''))"
  by (simp add: promptRejected_def trim_empty_iff lit_def isWhiteSpace_def)

lemma first_accepted: "\<not> promptRejected (JSString (lit ''first''))"
  by (simp add: promptRejected_def trim_empty_iff lit_def isWhiteSpace_def)

lemma second_accepted: "\<not> promptRejected (JSString (lit ''second''))"
  by (simp add: promptRejected_def trim_empty_iff lit_def isWhiteSpace_def)

lemma otherTab_no_match: "\<not> isChatGPTTab otherTab"
  by (simp add: isChatGPTTab_def otherTab_def lit_def)


lemma no_chat_tab: "getChatGPTTab (Some [otherTab]) = None"
  by (simp add: getChatGPTTab_def otherTab_no_match)

lemma sendPrompt_accepted:
  "isInitialized s \<Longrightarrow> \<not> promptRejected (JSString t) \<Longrightarrow>
   sendPrompt (JSString t) opts s =
     Inr (nextRequest s,
          s\<lparr>nextRequest := Suc (nextRequest s),
            responseListeners := responseListeners s @ [nextRequest s],
            requests := (requests s)(nextRequest s \<mapsto>
              \<lparr>prompt = t, timeoutSeconds = timeoutOf opts, timeoutId = True, resolved = False,
               settlements = [], progress = []\<rparr>)\<rparr>)"
  by (simp add: sendPrompt_def Let_def)

text \<open>
  The two guards of \<open>sendPrompt\<close>: an instance that is not initialised, then a prompt
  that is not a string or is empty or all white space.
\<close>

lemma sendPrompt_not_initialized:
  "\<not> isInitialized s \<Longrightarrow> sendPrompt p opts s = Inl NotInitialized"
  by (simp add: sendPrompt_def)

lemma promptRejected_iff:
  "promptRejected p \<longleftrightarrow> (case p of JSString t \<Rightarrow> \<forall>c\<in>set t. isWhiteSpace c | _ \<Rightarrow> True)"
  by (cases p) (auto simp add: promptRejected_def trim_empty_iff)

lemma sendPrompt_invalid_input:
  "isInitialized s \<Longrightarrow> promptRejected p \<Longrightarrow> sendPrompt p opts s = Inl InvalidInput"
  by (simp add: sendPrompt_def)

lemma initialized_state:
  "initialize newApi =
     \<lparr>isInitialized = True, messageListener = True, busListeners = 1,
      responseListeners = [], requests = (\<lambda>i. None), nextRequest = 0, tabMessages = []\<rparr>"
  by (simp add: initialize_def newApi_def)

lemma hello_sent:
  "sendPrompt (JSString (lit ''hello'')) defaults (initialize newApi) =
     Inr (0,
       \<lparr>isInitialized = True, messageListener = True, busListeners = 1,
        responseListeners = [0],
        requests = (\<lambda>i. None)(0 \<mapsto>
          \<lparr>prompt = lit ''hello'', timeoutSeconds = 300, timeoutId = True, resolved = False,
           settlements = [], progress = []\<rparr>),
        nextRequest = Suc 0, tabMessages = []\<rparr>)"
  by (simp add: initialized_state sendPrompt_accepted hello_accepted defaults_def timeoutOf_def)

lemma stalled_state:
  "requests stalled 0 =
     Some \<lparr>prompt = lit ''hello'', timeoutSeconds = 300, timeoutId = False, resolved = True,
           settlements = [], progress = []\<rparr>"
  "responseListeners stalled = []"
  by (simp_all add: stalled_def hello_sent afterTabLookup_def tryBlock_def no_chat_tab
      finish_def catchBlock_def)

text \<open>
  Claim C9 at the failing input: the instance is initialised, the prompt is valid, and the
  tab lookup finds no ChatGPT tab. The \<open>try\<close> block sets \<open>resolved\<close>, clears the timer,
  deletes the handler and throws; the \<open>catch\<close> block finds \<open>resolved\<close> set and returns.
  \<open>reject\<close> is never called: the request has no settlement, no timer and no handler left.
\<close>

theorem tab_not_found_never_rejects:
  "sendPrompt (JSString (lit ''hello'')) defaults (initialize newApi)
     = Inr (0, step (SendPrompt (JSString (lit ''hello'')) defaults) (initialize newApi))
   \<and> getChatGPTTab (Some [otherTab]) = None
   \<and> settlementsOf 0 stalled = []
   \<and> requests stalled 0 =
       Some \<lparr>prompt = lit ''hello'', timeoutSeconds = 300, timeoutId = False, resolved = True,
             settlements = [], progress = []\<rparr>
   \<and> responseListeners stalled = []"
proof -
  have sent: "sendPrompt (JSString (lit ''hello'')) defaults (initialize newApi)
     = Inr (0, step (SendPrompt (JSString (lit ''hello'')) defaults) (initialize newApi))"
    by (simp add: hello_sent)
  have none: "settlementsOf 0 stalled = []"
    by (simp add: settlementsOf_def stalled_state)
  from sent none no_chat_tab stalled_state show ?thesis by simp
qed

text \<open>
  Claim C5 at the failing input: after the tab lookup has found no tab, nothing that
  happens later settles the request. Its promise stays pending for ever, settled zero
  times.
\<close>

theorem tab_lookup_failure_never_settles:
  "settlementsOf 0 (fold step later stalled) = []"
proof -
  have wf: "wellFormed stalled"
    unfolding stalled_def by (rule run_wellFormed) (rule newApi_wellFormed)
  have "stalledAt 0 stalled" by (simp add: stalledAt_def stalled_state)
  from run_stalledAt [OF wf this, of later] show ?thesis
    by (auto simp add: stalledAt_def settlementsOf_def split: option.splits)
qed

lemma first_sent:
  "sendPrompt (JSString (lit ''first'')) defaults (initialize newApi) =
     Inr (0,
       \<lparr>isInitialized = True, messageListener = True, busListeners = 1,
        responseListeners = [0],
        requests = (\<lambda>i. None)(0 \<mapsto>
          \<lparr>prompt = lit ''first'', timeoutSeconds = 300, timeoutId = True, resolved = False,
           settlements = [], progress = []\<rparr>),
        nextRequest = Suc 0, tabMessages = []\<rparr>)"
  by (simp add: initialized_state sendPrompt_accepted first_accepted defaults_def timeoutOf_def)

lemma twoPending_eq:
  "sendPrompt (JSString (lit ''first'')) defaults (initialize newApi)
     = Inr (0, step (SendPrompt (JSString (lit ''first'')) defaults) (initialize newApi))"
  "sendPrompt (JSString (lit ''second'')) defaults
      (step (SendPrompt (JSString (lit ''first'')) defaults) (initialize newApi))
     = Inr (1, twoPending)"
  "busListeners twoPending = 1"
  by (simp_all add: twoPending_def first_sent sendPrompt_accepted second_accepted)

text \<open>
  Two prompts under way on a new instance, and one captured response.
\<close>

theorem response_broadcast_witness:
  "settlementsOf 0 (deliver (CAPTURED_RESPONSE (lit ''answer'')) twoPending)
     = [Resolved (lit ''answer'')]
   \<and> settlementsOf 1 (deliver (CAPTURED_RESPONSE (lit ''answer'')) twoPending)
     = [Resolved (lit ''answer'')]"
proof -
  note law = response_broadcast [of "initialize newApi" "lit ''answer''", THEN conjunct2,
      rule_format, OF conjI, OF twoPending_eq(1) twoPending_eq(2)]
  then show ?thesis by (simp add: deliver_def twoPending_eq(3))
qed

section \<open>Properties of the broker and the orchestrator\<close>

text \<open>
  What the handler would do if the arrays of the read and of the check held, at index 0,
  the very values their functions return in the page \<open>p\<close>. If the marker is present and
  marks success, the broker answers with it and executes the deletion, which removes the
  marker. If the marker is absent or does not mark success, the broker checks the input
  element: when its text is non-empty it answers with a success tagged
  \<open>dom_manipulation\<close>, otherwise with the marker as read, or with the failure
  ``No result found'' when there was no marker.
\<close>

lemma broker_result_handling:
  assumes "injectRun runs = None"
    and "readRun runs = Returned [readMarker p]"
    and "checkRun runs = Returned [Some (checkTextarea p)]"
  shows "onInjectMessage runs t =
     (case marker p of
        Some r \<Rightarrow>
          if success r = Some True
          then (r, [InjectProseMirrorCode t, ReadMarker, DeleteMarker])
          else (if hasContent (checkTextarea p) = Some True then domSuccess else r,
                [InjectProseMirrorCode t, ReadMarker, CheckTextarea])
      | None \<Rightarrow>
          (if hasContent (checkTextarea p) = Some True then domSuccess
           else failure (lit ''No result found''),
           [InjectProseMirrorCode t, ReadMarker, CheckTextarea]))
     \<and> marker (deleteMarker p) = None"
proof -
  have probe: "secondaryProbe runs fallback =
      (if hasContent (checkTextarea p) = Some True then domSuccess else fallback)" for fallback
    using assms(3) by (simp add: secondaryProbe_def)
  have del: "marker (deleteMarker p) = None"
    by (simp add: deleteMarker_def)
  show ?thesis
  proof (cases "marker p")
    case None
    with assms(1,2) del show ?thesis
      by (simp add: onInjectMessage_def readMarker_def probe)
  next
    case (Some r)
    with assms(1,2) del show ?thesis
      by (simp add: onInjectMessage_def readMarker_def probe)
  qed
qed

lemma typedText_content: "trim (textContent_or_innerText typedText) \<noteq> []"
  by (simp add: textContent_or_innerText_def typedText_def or_str_def lit_def trim_def
      isWhiteSpace_def)

lemma emptyText_content: "trim (textContent_or_innerText emptyText) = []"
  by (simp add: textContent_or_innerText_def emptyText_def or_str_def trim_def)

lemma check_facts:
  "hasContent (checkTextarea \<lparr>marker = m, textarea = Some typedText\<rparr>) = Some True"
  "hasContent (checkTextarea \<lparr>marker = m, textarea = Some emptyText\<rparr>) = Some False"
  by (simp_all add: checkTextarea_def typedText_content emptyText_content)

text \<open>
  The five cases on example pages.
\<close>

lemma broker_result_witness:
  "onInjectMessage (runsOn \<lparr>marker = Some editorSuccess, textarea = Some typedText\<rparr>)
       (lit ''hello'')
     = (editorSuccess, [InjectProseMirrorCode (lit ''hello''), ReadMarker, DeleteMarker])
   \<and> fst (onInjectMessage (runsOn \<lparr>marker = None, textarea = Some typedText\<rparr>)
       (lit ''hello'')) = domSuccess
   \<and> fst (onInjectMessage (runsOn \<lparr>marker = None, textarea = Some emptyText\<rparr>)
       (lit ''hello'')) = failure (lit ''No result found'')
   \<and> fst (onInjectMessage (runsOn \<lparr>marker = Some domFailure, textarea = Some typedText\<rparr>)
       (lit ''hello'')) = domSuccess
   \<and> fst (onInjectMessage (runsOn \<lparr>marker = Some domFailure, textarea = Some emptyText\<rparr>)
       (lit ''hello'')) = domFailure"
proof -
  have r: "injectRun (runsOn p) = None" "readRun (runsOn p) = Returned [readMarker p]"
    "checkRun (runsOn p) = Returned [Some (checkTextarea p)]" for p
    by (simp_all add: runsOn_def)
  show ?thesis
    by (simp add: broker_result_handling [OF r] check_facts editorSuccess_def domFailure_def)
qed

lemma chromeRuns_facts:
  "injectRun chromeRuns = None" "readRun chromeRuns = Returned [Some frameResult]"
  "checkRun chromeRuns = Returned [Some frameCheck]"
  by (simp_all add: chromeRuns_def)

lemma frame_probe: "secondaryProbe chromeRuns fallback = fallback"
  by (simp add: secondaryProbe_def chromeRuns_facts frameCheck_def)

text \<open>
  Claim C6 at the failing input: an injection request on a page whose marker marks success
  and whose input element holds text, the script runs being delivered as the extension API
  delivers them. The handler takes the frame object at index 0 for the result. Its
  \<open>success\<close> field is undefined, so the handler runs the check of the input element; the
  \<open>hasContent\<close> field of the check's frame object is undefined too, so it answers with the
  frame object it read. It does not answer with the marker, does not execute the deletion
  and does not synthesize the \<open>dom_manipulation\<close> success. Had index 0 held the values
  themselves, it would have answered with the marker and executed the deletion.
\<close>

theorem broker_answers_frame_object:
  "onInjectMessage chromeRuns t
     = (frameResult, [InjectProseMirrorCode t, ReadMarker, CheckTextarea])
   \<and> success (fst (onInjectMessage chromeRuns t)) = None
   \<and> fst (onInjectMessage chromeRuns t) \<noteq> editorSuccess
   \<and> fst (onInjectMessage chromeRuns t) \<noteq> domSuccess
   \<and> DeleteMarker \<notin> set (snd (onInjectMessage chromeRuns t))
   \<and> onInjectMessage (runsOn \<lparr>marker = Some editorSuccess, textarea = Some typedText\<rparr>) t
     = (editorSuccess, [InjectProseMirrorCode t, ReadMarker, DeleteMarker])"
proof -
  have answer: "onInjectMessage chromeRuns t
     = (frameResult, [InjectProseMirrorCode t, ReadMarker, CheckTextarea])"
    by (simp add: onInjectMessage_def chromeRuns_facts frame_probe) (simp add: frameResult_def)
  have differs: "frameResult \<noteq> editorSuccess" "frameResult \<noteq> domSuccess"
    "success frameResult = None"
    by (simp_all add: frameResult_def editorSuccess_def domSuccess_def)
  have r: "injectRun (runsOn p) = None" "readRun (runsOn p) = Returned [readMarker p]"
    "checkRun (runsOn p) = Returned [Some (checkTextarea p)]" for p
    by (simp_all add: runsOn_def)
  have bare: "onInjectMessage (runsOn \<lparr>marker = Some editorSuccess, textarea = Some typedText\<rparr>) t
     = (editorSuccess, [InjectProseMirrorCode t, ReadMarker, DeleteMarker])"
    by (simp add: broker_result_handling [OF r] editorSuccess_def)
  from answer differs bare show ?thesis by simp
qed

lemma setProseMirrorContent_replied:
  "setProseMirrorContent p (env\<lparr>injection := Replied reply\<rparr>) =
     (length (visibleText env) > 0, [RuntimeSendMessage (INJECT_PROSEMIRROR_SCRIPT p)])"
  by (simp add: setProseMirrorContent_def Let_def visibleText_def)



text \<open>
  Claim C10. Whatever the broker replies (an error of the runtime, no response, a failure
  or a success), \<open>setProseMirrorContent\<close> returns true exactly when the input element's
  text at the re-check is non-empty, and with the input element found \<open>handlePrompt\<close>
  submits exactly then.
\<close>

theorem injection_success_ignores_broker:
  "fst (setProseMirrorContent p (env\<lparr>injection := Replied reply\<rparr>))
     = (length (visibleText env) > 0)
   \<and> submits (handlePrompt p (env\<lparr>textareaFound := True, injection := Replied reply\<rparr>))
     = (length (visibleText env) > 0)"
proof -
  have content: "setProseMirrorContent p (e\<lparr>injection := Replied reply\<rparr>) =
      (length (visibleText e) > 0, [RuntimeSendMessage (INJECT_PROSEMIRROR_SCRIPT p)])" for e
  proof (cases reply)
    case (LastError m)
    then show ?thesis by (simp add: setProseMirrorContent_def Let_def visibleText_def)
  next
    case (Response r)
    then show ?thesis
      by (cases r) (simp_all add: setProseMirrorContent_def Let_def visibleText_def)
  qed
  have found: "visibleText (env\<lparr>textareaFound := True\<rparr>) = visibleText env"
    by (simp add: visibleText_def)
  have "env\<lparr>textareaFound := True, injection := Replied reply\<rparr>
      = (env\<lparr>textareaFound := True\<rparr>)\<lparr>injection := Replied reply\<rparr>"
    by simp
  then have "handlePrompt p (env\<lparr>textareaFound := True, injection := Replied reply\<rparr>) =
      Focus # [RuntimeSendMessage (INJECT_PROSEMIRROR_SCRIPT p)] @
        (if \<not> length (visibleText env) > 0
         then [ConsoleError (lit ''ChatGPT Automator: Failed to set prompt text.'')]
         else if sendButtonFound env then [Click, StartWaitForResponse]
         else [KeydownEnter, StartWaitForResponse])"
    using content [of "env\<lparr>textareaFound := True\<rparr>"] found
    by (simp add: handlePrompt_def)
  then show ?thesis by (simp add: content submits_def)
qed

lemma setProseMirrorContent_threw:
  "setProseMirrorContent p (env\<lparr>injection := SendThrew m\<rparr>) =
     (False, [ConsoleError (lit ''ChatGPT Automator: Error setting content:'')])"
  by (simp add: setProseMirrorContent_def)

text \<open>
  A reported failure and a missing response with text in the input lead to submission; a
  reported success with an empty input does not.
\<close>

theorem injection_success_examples:
  "submits (handlePrompt (lit ''hello'')
      \<lparr>textareaFound = True, injection = Replied (Response (Some (failure (lit ''boom'')))),
       textareaAfter = typedText, sendButtonFound = True\<rparr>)
   \<and> submits (handlePrompt (lit ''hello'')
      \<lparr>textareaFound = True, injection = Replied (Response None),
       textareaAfter = typedText, sendButtonFound = False\<rparr>)
   \<and> \<not> submits (handlePrompt (lit ''hello'')
      \<lparr>textareaFound = True, injection = Replied (Response (Some editorSuccess)),
       textareaAfter = emptyText, sendButtonFound = True\<rparr>)"
proof -
  from injection_success_ignores_broker
      [where p = "lit ''hello''" and reply = "Response (Some (failure (lit ''boom'')))"
      and env = "\<lparr>textareaFound = True, injection = Replied (Response None),
        textareaAfter = typedText, sendButtonFound = True\<rparr>"]
    injection_success_ignores_broker
      [where p = "lit ''hello''" and reply = "Response None"
      and env = "\<lparr>textareaFound = True, injection = Replied (Response None),
        textareaAfter = typedText, sendButtonFound = False\<rparr>"]
    injection_success_ignores_broker
      [where p = "lit ''hello''" and reply = "Response (Some editorSuccess)"
      and env = "\<lparr>textareaFound = True, injection = Replied (Response None),
        textareaAfter = emptyText, sendButtonFound = True\<rparr>"]
  show ?thesis by (simp add: visibleText_def typedText_content emptyText_content)
qed











end
